theory Spec2Isabelle
  imports Main "HOL-Library.Sublist" "HOL-Library.AList"
begin

section \<open>Text primitives of the script\<close>

text \<open>
  The script \<^verbatim>\<open>fix_systemtime.py\<close> opens every file in text mode. A text is a
  \<^typ>\<open>string\<close>; the characters of the model are the code points below 256. A file holds
  the text on disk; reading it translates the line endings (\<open>universal_newlines\<close> below),
  writing it stores the text as it is, as on a system whose line separator is the
  character 10.
\<close>

text \<open>Python's \<^verbatim>\<open>x in s\<close> on strings.\<close>

fun contains :: "string \<Rightarrow> string \<Rightarrow> bool" where
  "contains x [] = (x = [])"
| "contains x (c # s) = (prefix x (c # s) \<or> contains x s)"

text \<open>Python's \<^verbatim>\<open>s.find(x)\<close> and \<^verbatim>\<open>s.rfind(x)\<close>; the result \<^verbatim>\<open>-1\<close> is \<^const>\<open>None\<close>.\<close>

fun find :: "string \<Rightarrow> string \<Rightarrow> nat option" where
  "find x [] = (if x = [] then Some 0 else None)"
| "find x (c # s) = (if prefix x (c # s) then Some 0 else map_option Suc (find x s))"

text \<open>\<^verbatim>\<open>s.find(x, start)\<close> for \<^verbatim>\<open>0 <= start <= len(s)\<close>.\<close>

definition find_from :: "string \<Rightarrow> string \<Rightarrow> nat \<Rightarrow> nat option" where
  "find_from x s start = map_option (\<lambda>i. start + i) (find x (drop start s))"

fun rfind :: "string \<Rightarrow> string \<Rightarrow> nat option" where
  "rfind x [] = (if x = [] then Some 0 else None)"
| "rfind x (c # s) =
     (case rfind x s of
        Some i \<Rightarrow> Some (Suc i)
      | None \<Rightarrow> if prefix x (c # s) then Some 0 else None)"

text \<open>
  The whitespace of \<^verbatim>\<open>str.strip\<close>, \<^verbatim>\<open>str.lstrip\<close> and of the pattern \<^verbatim>\<open>\s\<close>, and the
  word characters of the pattern \<^verbatim>\<open>\w\<close> (alphanumeric or underscore), for code points
  below 256.
\<close>

definition is_space :: "char \<Rightarrow> bool" where
  "is_space c = (let n = (of_char c :: nat) in
     (9 \<le> n \<and> n \<le> 13) \<or> (28 \<le> n \<and> n \<le> 32) \<or> n = 133 \<or> n = 160)"

definition is_word :: "char \<Rightarrow> bool" where
  "is_word c = (let n = (of_char c :: nat) in
     (48 \<le> n \<and> n \<le> 57) \<or> (65 \<le> n \<and> n \<le> 90) \<or> n = 95 \<or> (97 \<le> n \<and> n \<le> 122)
     \<or> n = 170 \<or> n = 178 \<or> n = 179 \<or> n = 181 \<or> n = 185 \<or> n = 186
     \<or> (188 \<le> n \<and> n \<le> 190) \<or> (192 \<le> n \<and> n \<le> 214) \<or> (216 \<le> n \<and> n \<le> 246)
     \<or> 248 \<le> n)"

definition lstrip :: "string \<Rightarrow> string" where
  "lstrip s = dropWhile is_space s"

definition strip :: "string \<Rightarrow> string" where
  "strip s = rev (dropWhile is_space (rev (dropWhile is_space s)))"

text \<open>
  \<^verbatim>\<open>f.readlines()\<close>: the lines of a text, each with its terminating newline (the last one
  may lack it). \<^verbatim>\<open>f.writelines(lines)\<close> writes their concatenation.
\<close>

fun readlines :: "string \<Rightarrow> string list" where
  "readlines [] = []"
| "readlines (c # s) =
     (if c = CHR 0x0A then [c] # readlines s
      else (case readlines s of [] \<Rightarrow> [[c]] | l # ls \<Rightarrow> (c # l) # ls))"

text \<open>
  What \<^verbatim>\<open>open(p, 'r')\<close> does to the text on disk before \<^verbatim>\<open>read\<close> or \<^verbatim>\<open>readlines\<close>
  sees it (the default \<^verbatim>\<open>newline=None\<close>): the pair of characters 13 and 10, and a
  character 13 alone, become the character 10.
\<close>

fun universal_newlines :: "string \<Rightarrow> string" where
  "universal_newlines [] = []"
| "universal_newlines [c] = (if c = CHR 0x0D then [CHR 0x0A] else [c])"
| "universal_newlines (c # d # s) =
     (if c = CHR 0x0D
      then (if d = CHR 0x0A then CHR 0x0A # universal_newlines s
            else CHR 0x0A # universal_newlines (d # s))
      else c # universal_newlines (d # s))"

text \<open>A text given line by line, every line terminated by a newline.\<close>

definition text_lines :: "string list \<Rightarrow> string" where
  "text_lines ls = concat (map (\<lambda>l. l @ [CHR 0x0A]) ls)"


section \<open>Regular expressions as the script uses them\<close>

text \<open>
  The patterns of the script are built from literals, the classes \<^verbatim>\<open>\s\<close>, \<^verbatim>\<open>\w\<close> and
  \<^verbatim>\<open>.\<close>, sequence, and the greedy operators \<^verbatim>\<open>?\<close>, \<^verbatim>\<open>*\<close> and \<^verbatim>\<open>+\<close>.
  \<open>ms r s\<close> lists what remains of \<open>s\<close> after each way of matching \<open>r\<close> at the start of
  \<open>s\<close>, in the order in which Python's backtracking matcher tries them: a greedy operator
  takes its operand before it gives it up. The head of the list is the match Python
  reports. An iteration of \<^verbatim>\<open>*\<close> that consumes nothing is not repeated.
\<close>

datatype cls = Space | Word | Dot

fun in_cls :: "cls \<Rightarrow> char \<Rightarrow> bool" where
  "in_cls Space c = is_space c"
| "in_cls Word c = is_word c"
| "in_cls Dot c = (c \<noteq> CHR 0x0A)"

datatype rx = Lit string | Cls cls | Seq rx rx | Opt rx | Star rx

definition Plus :: "rx \<Rightarrow> rx" where
  "Plus r = Seq r (Star r)"

fun ms :: "rx \<Rightarrow> string \<Rightarrow> string list" where
  "ms (Lit l) s = (if prefix l s then [drop (length l) s] else [])"
| "ms (Cls k) s = (case s of [] \<Rightarrow> [] | c # t \<Rightarrow> if in_cls k c then [t] else [])"
| "ms (Seq r1 r2) s = concat (map (ms r2) (ms r1 s))"
| "ms (Opt r) s = ms r s @ [s]"
| "ms (Star r) s =
     concat (map (ms (Star r)) (filter (\<lambda>t. length t < length s) (ms r s))) @ [s]"

text \<open>
  \<^verbatim>\<open>re.search(r, s)\<close>: the leftmost position at which \<open>r\<close> matches, as the text before
  the match, the matched text and the text after it.
\<close>

fun re_search :: "rx \<Rightarrow> string \<Rightarrow> (string \<times> string \<times> string) option" where
  "re_search r [] = (case ms r [] of [] \<Rightarrow> None | t # _ \<Rightarrow> Some ([], [], []))"
| "re_search r (c # s) =
     (case ms r (c # s) of
        t # _ \<Rightarrow> Some ([], take (length (c # s) - length t) (c # s), t)
      | [] \<Rightarrow> map_option (\<lambda>(b, m, a). (c # b, m, a)) (re_search r s))"

definition re_found :: "rx \<Rightarrow> string \<Rightarrow> bool" where
  "re_found r s = (re_search r s \<noteq> None)"

text \<open>
  \<^verbatim>\<open>re.sub(r, repl, s)\<close>: every leftmost non-overlapping match is replaced; \<open>f\<close> maps the
  matched text to its replacement (a constant function for a replacement without group
  references). No pattern of the script matches the empty text (each starts with a
  non-empty literal), so the branch for an empty match is there for totality only.
\<close>

fun re_sub :: "rx \<Rightarrow> (string \<Rightarrow> string) \<Rightarrow> string \<Rightarrow> string" where
  "re_sub r f [] = (case ms r [] of [] \<Rightarrow> [] | t # _ \<Rightarrow> f [])"
| "re_sub r f (c # s) =
     (case ms r (c # s) of
        [] \<Rightarrow> c # re_sub r f s
      | t # _ \<Rightarrow>
          if length t < length (c # s)
          then f (take (length (c # s) - length t) (c # s)) @ re_sub r f t
          else f [] @ c # re_sub r f s)"

text \<open>\<^verbatim>\<open>re.sub(r, repl, s, count=1)\<close>: only the leftmost match is replaced.\<close>

definition re_sub1 :: "rx \<Rightarrow> (string \<Rightarrow> string) \<Rightarrow> string \<Rightarrow> string" where
  "re_sub1 r f s = (case re_search r s of None \<Rightarrow> s | Some (b, m, a) \<Rightarrow> b @ f m @ a)"


section \<open>The data of the fixer\<close>

text \<open>
  An occurrence is the triple \<^verbatim>\<open>(file_path, line_num, line.strip())\<close> that
  \<^verbatim>\<open>find_systemtime_usage\<close> appends; a path is the text \<^verbatim>\<open>str(file_path)\<close>. The five keys
  of the dictionary of \<^verbatim>\<open>categorize_usage\<close> are the constructors of \<open>category\<close>, and the
  dictionary is a function from them to lists of occurrences.
\<close>

type_synonym path = string
type_synonym occurrence = "path \<times> nat \<times> string"

datatype category =
  TIMESTAMP_CONVERSION | DIRECT_ASSIGNMENT | STRUCT_FIELD | FUNCTION_CALL | OTHER

text \<open>
  The entries of \<^verbatim>\<open>self.fixes_applied\<close>; the file is named by \<^verbatim>\<open>file_path.name\<close>, the
  last component of its path.
\<close>

datatype fix_record =
    Timestamp_conversions_in string
  | Struct_field_in string nat
  | Added_allow_attribute_in string nat
  | Created_time_utils_module

definition name_of :: "path \<Rightarrow> string" where
  "name_of p = rev (takeWhile (\<lambda>c. c \<noteq> CHR ''/'') (rev p))"

text \<open>
  The state the script acts on: the regular files of the file system with their contents
  (an association list with distinct keys, whose order is the order in which the directory
  walk yields them), the directories, the log of the fixer object, and a log of the writes:
  each completed \<^verbatim>\<open>open(p, 'w')\<close> with its \<^verbatim>\<open>write\<close> adds the path, the text the
  file held on disk before (\<^const>\<open>None\<close> for a new file) and the text written. Every regular
  file can be read and written; a directory cannot be opened as a file. What the script
  prints is not part of the state.
\<close>

record state =
  files :: "(path \<times> string) list"
  dirs :: "path list"
  writes :: "(path \<times> string option \<times> string) list"
  fixes_applied :: "fix_record list"

text \<open>The text of a file on disk, and the text that the script reads from it.\<close>

definition read_file :: "state \<Rightarrow> path \<Rightarrow> string option" where
  "read_file st p = map_of (files st) p"

definition read_text :: "state \<Rightarrow> path \<Rightarrow> string option" where
  "read_text st p = map_option universal_newlines (read_file st p)"

definition write_file :: "path \<Rightarrow> string \<Rightarrow> state \<Rightarrow> state" where
  "write_file p c st =
     st\<lparr>files := AList.update p c (files st),
        writes := writes st @ [(p, read_file st p, c)]\<rparr>"

definition append_fix :: "fix_record \<Rightarrow> state \<Rightarrow> state" where
  "append_fix x st = st\<lparr>fixes_applied := fixes_applied st @ [x]\<rparr>"

definition path_exists :: "state \<Rightarrow> path \<Rightarrow> bool" where
  "path_exists st p = (p \<in> set (dirs st) \<or> p \<in> fst ` set (files st))"

text \<open>
  \<^verbatim>\<open>lines[line_num - 1]\<close>: the index Python reads, or \<^const>\<open>None\<close> where it raises
  IndexError. Line number 0 gives the index \<^verbatim>\<open>-1\<close>, the last line.
\<close>

definition line_index :: "nat \<Rightarrow> 'a list \<Rightarrow> nat option" where
  "line_index line_num lines =
     (if line_num = 0
      then (if lines = [] then None else Some (length lines - 1))
      else if line_num - 1 < length lines then Some (line_num - 1) else None)"


section \<open>The patterns\<close>

text \<open>\<^verbatim>\<open>(std::time::)?SystemTime::now\(\)\<close>\<close>

definition systemtime_rx :: rx where
  "systemtime_rx = Seq (Opt (Lit ''std::time::'')) (Lit ''SystemTime::now()'')"

text \<open>\<^verbatim>\<open>let\s+\w+\s*=.*SystemTime::now\<close> followed by \<open>rest\<close> (empty, or \<^verbatim>\<open>\(\)\<close>)\<close>

definition let_rx :: "string \<Rightarrow> rx" where
  "let_rx rest =
     Seq (Lit ''let'') (Seq (Plus (Cls Space)) (Seq (Plus (Cls Word)) (Seq (Star (Cls Space))
       (Seq (Lit ''='') (Seq (Star (Cls Dot)) (Lit (''SystemTime::now'' @ rest)))))))"

text \<open>
  \<^verbatim>\<open>SystemTime::now\(\)\.duration_since\((?:std::time::)?UNIX_EPOCH\)\<close> followed by the
  literal \<open>rest\<close>
\<close>

definition chain_rx :: "string \<Rightarrow> rx" where
  "chain_rx rest =
     Seq (Lit ''SystemTime::now().duration_since('')
       (Seq (Opt (Lit ''std::time::'')) (Lit (''UNIX_EPOCH)'' @ rest)))"

text \<open>
  \<^verbatim>\<open>name:\s*SystemTime::now\(\),?\<close>, and with \<open>ns\<close> the form with the optional prefix,
  \<^verbatim>\<open>name:\s*(?:std::time::)?SystemTime::now\(\),?\<close>
\<close>

definition field_rx :: "string \<Rightarrow> bool \<Rightarrow> rx" where
  "field_rx name ns =
     Seq (Lit (name @ '':'')) (Seq (Star (Cls Space))
       (Seq (if ns then Seq (Opt (Lit ''std::time::'')) (Lit ''SystemTime::now()'')
             else Lit ''SystemTime::now()'')
          (Opt (Lit '',''))))"

text \<open>\<^verbatim>\<open>(pub mod \w+;)\<close> and \<^verbatim>\<open>((?:pub mod \w+;\s*)+)\<close>\<close>

definition mod_rx :: rx where
  "mod_rx = Seq (Lit ''pub mod '') (Seq (Plus (Cls Word)) (Lit '';''))"

definition mods_rx :: rx where
  "mods_rx =
     Plus (Seq (Lit ''pub mod '') (Seq (Plus (Cls Word)) (Seq (Lit '';'') (Star (Cls Space)))))"


section \<open>Finding and categorizing\<close>

text \<open>
  \<^verbatim>\<open>self.project_root.rglob("*.rs")\<close>: the regular files below the root whose name ends
  in \<^verbatim>\<open>.rs\<close>. Paths are in normal form: a file below \<open>root\<close> has a path that starts
  with \<open>root\<close> and a slash.
\<close>

definition rglob_rs :: "path \<Rightarrow> state \<Rightarrow> path list" where
  "rglob_rs root st =
     filter (\<lambda>p. prefix (root @ ''/'') p \<and> suffix ''.rs'' p) (map fst (files st))"

definition file_occurrences :: "path \<Rightarrow> string \<Rightarrow> occurrence list" where
  "file_occurrences p content =
     map (\<lambda>(line_num, line). (p, line_num, strip line))
       (filter (\<lambda>(line_num, line). re_found systemtime_rx line)
          (enumerate 1 (readlines content)))"

definition find_systemtime_usage :: "path \<Rightarrow> state \<Rightarrow> occurrence list" where
  "find_systemtime_usage root st =
     concat (map (\<lambda>p. case read_text st p of None \<Rightarrow> [] | Some c \<Rightarrow> file_occurrences p c)
       (rglob_rs root st))"

definition categorize_line :: "string \<Rightarrow> category" where
  "categorize_line line =
     (if contains ''duration_since'' line \<and> contains ''UNIX_EPOCH'' line
        then TIMESTAMP_CONVERSION
      else if re_found (let_rx []) line
        then DIRECT_ASSIGNMENT
      else if contains '':'' line \<and> contains ''SystemTime::now()'' line
        then STRUCT_FIELD
      else if contains ''('' line \<and> contains ''SystemTime::now()'' line
        then FUNCTION_CALL
      else OTHER)"

fun categorize_loop ::
  "occurrence list \<Rightarrow> (category \<Rightarrow> occurrence list) \<Rightarrow> category \<Rightarrow> occurrence list" where
  "categorize_loop [] categories = categories"
| "categorize_loop ((file_path, line_num, line) # matches) categories =
     categorize_loop matches
       (categories(categorize_line line :=
          categories (categorize_line line) @ [(file_path, line_num, line)]))"

definition categorize_usage :: "occurrence list \<Rightarrow> category \<Rightarrow> occurrence list" where
  "categorize_usage matches = categorize_loop matches (\<lambda>c. [])"


section \<open>The helper module\<close>

definition utils_content :: string where
  "utils_content = text_lines
    [''//! Time utility functions for the Aura codebase'',
     ''//!'',
     ''//! This module provides centralized time functions that can be easily'',
     ''//! replaced with injectable time sources for testing and deterministic execution.'',
     '''',
     ''use std::time::{SystemTime, UNIX_EPOCH};'',
     '''',
     ''/// Get current Unix timestamp in seconds'',
     ''/// '',
     ''/// TODO: Replace with injected time source in production'',
     ''pub fn current_unix_timestamp() -> u64 {'',
     ''    #[allow(clippy::disallowed_methods)]'',
     ''    SystemTime::now()'',
     ''        .duration_since(UNIX_EPOCH)'',
     ''        .unwrap_or_default()'',
     ''        .as_secs()'',
     ''}'',
     '''',
     ''/// Get current Unix timestamp in milliseconds'',
     ''/// '',
     ''/// TODO: Replace with injected time source in production  '',
     ''pub fn current_unix_timestamp_millis() -> u64 {'',
     ''    #[allow(clippy::disallowed_methods)]'',
     ''    SystemTime::now()'',
     ''        .duration_since(UNIX_EPOCH)'',
     ''        .unwrap_or_default()'',
     ''        .as_millis() as u64'',
     ''}'',
     '''',
     ''/// Get current SystemTime'',
     ''/// '',
     ''/// TODO: Replace with injected time source in production'',
     ''pub fn current_system_time() -> SystemTime {'',
     ''    #[allow(clippy::disallowed_methods)]'',
     ''    SystemTime::now()'',
     ''}'']"

definition utils_dir :: "path \<Rightarrow> path" where
  "utils_dir project_root = project_root @ ''/crates/aura-types/src''"

definition utils_file :: "path \<Rightarrow> path" where
  "utils_file project_root = utils_dir project_root @ ''/time_utils.rs''"

definition lib_file :: "path \<Rightarrow> path" where
  "lib_file project_root = utils_dir project_root @ ''/lib.rs''"

text \<open>
  The new content of \<^verbatim>\<open>lib.rs\<close> when the registration is absent. The replacement
  \<^verbatim>\<open>\1pub mod time_utils;\n\<close> keeps the match (group 1 is the whole pattern) and appends
  the line.
\<close>

definition register_module :: "string \<Rightarrow> string" where
  "register_module lib_content =
     (if re_found mod_rx lib_content
      then re_sub1 mods_rx (\<lambda>m. m @ ''pub mod time_utils;'' @ [CHR 0x0A]) lib_content
      else ''pub mod time_utils;'' @ [CHR 0x0A] @ lib_content)"

text \<open>
  \<^verbatim>\<open>create_time_helper_functions\<close>. Opening the helper file for writing raises when its
  directory does not exist (or when the path is a directory); \<^verbatim>\<open>lib_file.exists()\<close> holds
  for a directory too, and opening one raises. The \<^verbatim>\<open>except\<close> clause ends the function
  there, with what was written before.
\<close>

definition create_time_helper_functions :: "path \<Rightarrow> state \<Rightarrow> state" where
  "create_time_helper_functions project_root st =
     (if utils_dir project_root \<notin> set (dirs st) \<or> utils_file project_root \<in> set (dirs st)
      then st
      else
        let st1 = write_file (utils_file project_root) utils_content st in
        if lib_file project_root \<in> set (dirs st1) then st1
        else
          (case read_text st1 (lib_file project_root) of
             None \<Rightarrow> append_fix Created_time_utils_module st1
           | Some lib_content \<Rightarrow>
               append_fix Created_time_utils_module
                 (if \<not> contains ''pub mod time_utils;'' lib_content
                  then write_file (lib_file project_root) (register_module lib_content) st1
                  else st1)))"


section \<open>The rewriters\<close>

definition helper_function :: string where
  "helper_function = text_lines
    ['''',
     ''fn current_unix_timestamp() -> u64 {'',
     ''    // TODO: Replace with injected time source in production'',
     ''    #[allow(clippy::disallowed_methods)]'',
     ''    std::time::SystemTime::now()'',
     ''        .duration_since(std::time::UNIX_EPOCH)'',
     ''        .unwrap_or_default()'',
     ''        .as_secs()'',
     ''}'',
     '''']"

text \<open>
  The insertion of the helper function. When no newline follows the last \<^verbatim>\<open>use \<close>,
  \<^verbatim>\<open>find\<close> returns \<^verbatim>\<open>-1\<close> and the slices \<^verbatim>\<open>content[:-1]\<close> and \<^verbatim>\<open>content[-1:]\<close> split
  the content before its last character.
\<close>

definition add_helper :: "string \<Rightarrow> string" where
  "add_helper content =
     (if \<not> contains ''fn current_unix_timestamp() -> u64'' content
      then
        (case rfind ''use '' content of
           None \<Rightarrow> content
         | Some import_end \<Rightarrow>
             (case find_from [CHR 0x0A] content import_end of
                Some next_line \<Rightarrow>
                  take next_line content @ [CHR 0x0A] @ helper_function
                    @ drop next_line content
              | None \<Rightarrow>
                  butlast content @ [CHR 0x0A] @ helper_function
                    @ drop (length content - 1) content))
      else content)"

definition replace_calls :: "string \<Rightarrow> string" where
  "replace_calls content =
     re_sub (chain_rx ''.unwrap().as_millis()'') (\<lambda>m. ''current_unix_timestamp() * 1000'')
       (re_sub (chain_rx ''?.as_secs()'') (\<lambda>m. ''current_unix_timestamp()'')
          (re_sub (chain_rx ''?.as_millis() as u64'') (\<lambda>m. ''current_unix_timestamp() * 1000'')
             content))"

text \<open>The content that \<^verbatim>\<open>fix_timestamp_conversions\<close> computes for one occurrence.\<close>

definition timestamp_content :: "path \<Rightarrow> string \<Rightarrow> string" where
  "timestamp_content file_path content =
     (if contains ''cli'' file_path then replace_calls (add_helper content) else content)"

fun fix_timestamp_conversions :: "occurrence list \<Rightarrow> state \<Rightarrow> state" where
  "fix_timestamp_conversions [] st = st"
| "fix_timestamp_conversions ((file_path, line_num, line) # matches) st =
     fix_timestamp_conversions matches
       (case read_text st file_path of
          None \<Rightarrow> st
        | Some original_content \<Rightarrow>
            let content = timestamp_content file_path original_content in
            if content \<noteq> original_content
            then append_fix (Timestamp_conversions_in (name_of file_path))
                   (write_file file_path content st)
            else st)"

definition struct_fixes :: "(rx \<times> string) list" where
  "struct_fixes =
    [(field_rx ''created_at'' False, ''created_at: current_timestamp,''),
     (field_rx ''timestamp'' True, ''timestamp: current_timestamp,''),
     (field_rx ''last_activity'' True, ''last_activity: current_timestamp,''),
     (field_rx ''started_at'' True, ''started_at: current_timestamp,''),
     (field_rx ''generated_at'' True, ''generated_at: current_timestamp,''),
     (field_rx ''recorded_at'' True, ''recorded_at: current_timestamp,''),
     (field_rx ''exported_at'' True, ''exported_at: current_timestamp,''),
     (field_rx ''executed_at'' True, ''executed_at: current_timestamp,''),
     (field_rx ''connected_at'' True, ''connected_at: current_timestamp,'')]"

text \<open>
  The loop over \<^verbatim>\<open>fixes\<close>: the first pattern found in the line rewrites it
  (\<^const>\<open>None\<close>: \<^verbatim>\<open>modified\<close> stays false).
\<close>

fun apply_fixes :: "(rx \<times> string) list \<Rightarrow> string \<Rightarrow> string option" where
  "apply_fixes [] original_line = None"
| "apply_fixes ((pattern, replacement) # fixes) original_line =
     (if re_found pattern original_line
      then Some (re_sub pattern (\<lambda>m. replacement) original_line)
      else apply_fixes fixes original_line)"

fun fix_struct_fields :: "occurrence list \<Rightarrow> state \<Rightarrow> state" where
  "fix_struct_fields [] st = st"
| "fix_struct_fields ((file_path, line_num, line) # matches) st =
     fix_struct_fields matches
       (case read_text st file_path of
          None \<Rightarrow> st
        | Some content \<Rightarrow>
            let lines = readlines content in
            (case line_index line_num lines of
               None \<Rightarrow> st
             | Some i \<Rightarrow>
                 (case apply_fixes struct_fixes (lines ! i) of
                    None \<Rightarrow> st
                  | Some new_line \<Rightarrow>
                      append_fix (Struct_field_in (name_of file_path) line_num)
                        (write_file file_path (concat (lines[i := new_line])) st))))"

definition allow_line :: "string \<Rightarrow> string" where
  "allow_line original_line =
     replicate (length original_line - length (lstrip original_line)) CHR '' ''
       @ ''#[allow(clippy::disallowed_methods)]'' @ [CHR 0x0A]"

fun fix_direct_assignments :: "occurrence list \<Rightarrow> state \<Rightarrow> state" where
  "fix_direct_assignments [] st = st"
| "fix_direct_assignments ((file_path, line_num, line) # matches) st =
     fix_direct_assignments matches
       (case read_text st file_path of
          None \<Rightarrow> st
        | Some content \<Rightarrow>
            let lines = readlines content in
            (case line_index line_num lines of
               None \<Rightarrow> st
             | Some i \<Rightarrow>
                 if re_found (let_rx ''()'') (lines ! i)
                    \<and> (contains ''test'' file_path \<or> contains ''utils'' file_path)
                 then append_fix (Added_allow_attribute_in (name_of file_path) line_num)
                        (write_file file_path
                           (concat (take i lines @ [allow_line (lines ! i)] @ drop i lines)) st)
                 else st))"


section \<open>The run and the entry point\<close>

definition run_fixes :: "path \<Rightarrow> state \<Rightarrow> state" where
  "run_fixes project_root st =
     (let matches = find_systemtime_usage project_root st in
      if matches = [] then st
      else
        let categories = categorize_usage matches in
        fix_direct_assignments (categories DIRECT_ASSIGNMENT)
          (fix_struct_fields (categories STRUCT_FIELD)
             (fix_timestamp_conversions (categories TIMESTAMP_CONVERSION)
                (create_time_helper_functions project_root st))))"

text \<open>
  \<^verbatim>\<open>main\<close>, from the argument vector (the script's name first) and the file system, to
  the exit code, the message \<^verbatim>\<open>main\<close> itself prints before it exits, and the final state.
  The fixer object starts with an empty log.
\<close>

datatype message = Usage | Project_root_does_not_exist path

definition main :: "string list \<Rightarrow> state \<Rightarrow> nat \<times> message option \<times> state" where
  "main argv st =
     (if length argv \<noteq> 2 then (1, Some Usage, st)
      else
        let project_root = argv ! 1 in
        if \<not> path_exists st project_root
        then (1, Some (Project_root_does_not_exist project_root), st)
        else (0, None, run_fixes project_root (st\<lparr>fixes_applied := []\<rparr>)))"



section \<open>Notions for the statements\<close>

text \<open>The text with which every conversion chain begins.\<close>

definition chain_head :: string where
  "chain_head = ''SystemTime::now().duration_since(''"

text \<open>The number of positions of a text at which \<open>x\<close> begins.\<close>

fun occurrences_of :: "string \<Rightarrow> string \<Rightarrow> nat" where
  "occurrences_of x [] = 0"
| "occurrences_of x (c # s) = (if prefix x (c # s) then 1 else 0) + occurrences_of x s"

text \<open>Patterns made of literals without a newline, in sequence or optional.\<close>

fun lits_only :: "rx \<Rightarrow> bool" where
  "lits_only (Lit l) = (CHR 0x0A \<notin> set l)"
| "lits_only (Seq r1 r2) = (lits_only r1 \<and> lits_only r2)"
| "lits_only (Opt r) = lits_only r"
| "lits_only (Cls k) = False"
| "lits_only (Star r) = False"

text \<open>Patterns all of whose matches contain the character \<open>c\<close>.\<close>

fun always_has :: "char \<Rightarrow> rx \<Rightarrow> bool" where
  "always_has c (Lit l) = (c \<in> set l)"
| "always_has c (Seq r1 r2) = (always_has c r1 \<or> always_has c r2)"
| "always_has c (Opt r) = False"
| "always_has c (Cls k) = False"
| "always_has c (Star r) = False"

text \<open>One module declaration with the whitespace after it: the group that \<^const>\<open>mods_rx\<close>
  repeats.\<close>

definition decl_rx :: rx where
  "decl_rx = Seq (Lit ''pub mod '') (Seq (Plus (Cls Word)) (Seq (Lit '';'') (Star (Cls Space))))"


section \<open>Example inputs\<close>

text \<open>A conversion line that contains a colon.\<close>

definition conv_line :: string where
  "conv_line = ''ts: SystemTime::now().duration_since(UNIX_EPOCH)''"

text \<open>A project with one test file, before the first run and after it.\<close>

definition tests_tree :: state where
  "tests_tree =
     \<lparr>files = [(''proj/tests/clock.rs'',
                text_lines [''fn stamp() {'', ''    let now = SystemTime::now();'', ''}''])],
      dirs = [''proj'', ''proj/tests'', ''proj/crates'', ''proj/crates/aura-types'',
              ''proj/crates/aura-types/src''],
      writes = [], fixes_applied = []\<rparr>"

definition tests_tree_fixed :: state where
  "tests_tree_fixed =
     \<lparr>files = [(''proj/tests/clock.rs'',
                text_lines [''fn stamp() {'', ''    #[allow(clippy::disallowed_methods)]'',
                  ''    let now = SystemTime::now();'', ''}'']),
               (''proj/crates/aura-types/src/time_utils.rs'', utils_content)],
      dirs = [''proj'', ''proj/tests'', ''proj/crates'', ''proj/crates/aura-types'',
              ''proj/crates/aura-types/src''],
      writes = [(''proj/crates/aura-types/src/time_utils.rs'', None, utils_content),
                (''proj/tests/clock.rs'',
                 Some (text_lines [''fn stamp() {'', ''    let now = SystemTime::now();'', ''}'']),
                 text_lines [''fn stamp() {'', ''    #[allow(clippy::disallowed_methods)]'',
                  ''    let now = SystemTime::now();'', ''}''])],
      fixes_applied = [Created_time_utils_module, Added_allow_attribute_in ''clock.rs'' 2]\<rparr>"

text \<open>A project with one source file that initialises three fields.\<close>

definition fields_tree :: state where
  "fields_tree =
     \<lparr>files = [(''proj/src/event.rs'',
                text_lines [''Event {'',
                  ''    created_at: SystemTime::now(),'',
                  ''    created_at: std::time::SystemTime::now(),'',
                  ''    timestamp: std::time::SystemTime::now(),'',
                  ''}''])],
      dirs = [''proj'', ''proj/src'', ''proj/crates'', ''proj/crates/aura-types'',
              ''proj/crates/aura-types/src''],
      writes = [], fixes_applied = []\<rparr>"

text \<open>A project without a Rust file, and one whose only Rust file has no occurrence.\<close>

definition empty_tree :: state where
  "empty_tree =
     \<lparr>files = [(''proj/README.md'', text_lines [''notes''])],
      dirs = [''proj''], writes = [], fixes_applied = []\<rparr>"

definition quiet_tree :: state where
  "quiet_tree =
     \<lparr>files = [(''proj/src/main.rs'', text_lines [''fn main() {}''])],
      dirs = [''proj'', ''proj/src'', ''proj/crates'', ''proj/crates/aura-types'',
              ''proj/crates/aura-types/src''],
      writes = [], fixes_applied = []\<rparr>"

text \<open>A command-line source file with one conversion chain and no import.\<close>

definition cli_tree :: state where
  "cli_tree =
     \<lparr>files = [(''proj/cli/stamp.rs'',
                text_lines [''fn stamp() -> u64 {'',
                  ''    SystemTime::now().duration_since(UNIX_EPOCH)?.as_secs()'',
                  ''}''])],
      dirs = [''proj'', ''proj/cli''], writes = [], fixes_applied = []\<rparr>"


section \<open>Facts about the text primitives and the state\<close>

lemma contains_iff: "contains x s \<longleftrightarrow> (\<exists>a b. s = a @ x @ b)"
proof (induction s)
  case Nil
  then show ?case by auto
next
  case (Cons c s)
  show ?case
  proof
    assume "contains x (c # s)"
    then consider "prefix x (c # s)" | "contains x s" by auto
    then show "\<exists>a b. c # s = a @ x @ b"
    proof cases
      case 1
      then obtain b where "c # s = x @ b" by (auto simp: prefix_def)
      then have "c # s = [] @ x @ b" by simp
      then show ?thesis by blast
    next
      case 2
      then obtain a b where "s = a @ x @ b" using Cons.IH by blast
      then have "c # s = (c # a) @ x @ b" by simp
      then show ?thesis by blast
    qed
  next
    assume "\<exists>a b. c # s = a @ x @ b"
    then obtain a b where ab: "c # s = a @ x @ b" by blast
    show "contains x (c # s)"
    proof (cases a)
      case Nil
      then have "prefix x (c # s)" using ab by (metis append_Nil prefixI)
      then show ?thesis by simp
    next
      case (Cons a0 a')
      then have "s = a' @ x @ b" using ab by simp
      then show ?thesis using Cons.IH by auto
    qed
  qed
qed

lemma contains_self_append: "contains x (a @ x @ b)"
  unfolding contains_iff by blast

lemma contains_append_left: "contains x a \<Longrightarrow> contains x (a @ b)"
  unfolding contains_iff by (metis append.assoc)

lemma contains_append_right: "contains x b \<Longrightarrow> contains x (a @ b)"
  unfolding contains_iff by (metis append.assoc)

lemma rfind_None_iff: "rfind x s = None \<longleftrightarrow> \<not> contains x s"
  by (induction s) (auto split: option.splits)

lemma find_None_iff: "find x s = None \<longleftrightarrow> \<not> contains x s"
  by (induction s) auto

lemma find_Some_prefix: "find x s = Some i \<Longrightarrow> i \<le> length s \<and> prefix x (drop i s)"
  by (induction s arbitrary: i) (auto split: if_splits)

lemma rfind_Some_prefix: "rfind x s = Some i \<Longrightarrow> i \<le> length s \<and> prefix x (drop i s)"
  by (induction s arbitrary: i) (auto split: option.splits if_splits)

lemma concat_readlines: "concat (readlines s) = s"
  by (induction s) (auto split: list.splits)

lemma read_write_file:
  "read_file (write_file p c st) q = (if q = p then Some c else read_file st q)"
  by (simp add: read_file_def write_file_def update_conv')

lemma read_append_fix [simp]: "read_file (append_fix x st) q = read_file st q"
  by (simp add: read_file_def append_fix_def)

lemma writes_write_file:
  "writes (write_file p c st) = writes st @ [(p, read_file st p, c)]"
  by (simp add: write_file_def)

lemma writes_append_fix [simp]: "writes (append_fix x st) = writes st"
  by (simp add: append_fix_def)

lemma fixes_write_file [simp]: "fixes_applied (write_file p c st) = fixes_applied st"
  by (simp add: write_file_def)

lemma fixes_append_fix: "fixes_applied (append_fix x st) = fixes_applied st @ [x]"
  by (simp add: append_fix_def)

lemma dirs_write_file [simp]: "dirs (write_file p c st) = dirs st"
  by (simp add: write_file_def)

lemma dirs_append_fix [simp]: "dirs (append_fix x st) = dirs st"
  by (simp add: append_fix_def)

text \<open>The equation for \<^verbatim>\<open>*\<close> unfolds itself; it is applied by hand.\<close>

declare ms.simps(5) [simp del]

subsection \<open>Reading with translated line endings\<close>

lemma universal_newlines_id: "CHR 0x0D \<notin> set s \<Longrightarrow> universal_newlines s = s"
  by (induction s rule: universal_newlines.induct) auto

lemma universal_newlines_no_cr: "CHR 0x0D \<notin> set (universal_newlines s)"
  by (induction s rule: universal_newlines.induct) auto

lemma read_text_no_cr: "read_text st p = Some c \<Longrightarrow> CHR 0x0D \<notin> set c"
  using universal_newlines_no_cr by (auto simp: read_text_def)

lemma read_text_plain:
  "read_file st p = Some c \<Longrightarrow> CHR 0x0D \<notin> set c \<Longrightarrow> read_text st p = Some c"
  by (simp add: read_text_def universal_newlines_id)

lemma read_text_None: "read_text st p = None \<longleftrightarrow> read_file st p = None"
  by (simp add: read_text_def)

lemma read_text_write_file:
  "read_text (write_file p c st) q
     = (if q = p then Some (universal_newlines c) else read_text st q)"
  by (simp add: read_text_def read_write_file)

lemma read_text_append_fix [simp]: "read_text (append_fix x st) q = read_text st q"
  by (simp add: read_text_def)

lemma text_lines_no_cr:
  "\<forall>l \<in> set ls. CHR 0x0D \<notin> set l \<Longrightarrow> CHR 0x0D \<notin> set (text_lines ls)"
  by (induction ls) (auto simp: text_lines_def)



section \<open>Facts about matching and substitution\<close>

subsection \<open>What a match leaves\<close>


lemma ms_suffix: "t \<in> set (ms r s) \<Longrightarrow> \<exists>m. s = m @ t"
proof (induction r s arbitrary: t rule: ms.induct)
  case (1 l s)
  then show ?case by (auto simp: prefix_def split: if_splits)
next
  case (2 k s)
  then show ?case by (cases s) (auto split: if_splits)
next
  case (3 r1 r2 s)
  from "3.prems" obtain u where u: "u \<in> set (ms r1 s)" "t \<in> set (ms r2 u)" by auto
  from "3.IH"(1) [OF u(1)] obtain m1 where "s = m1 @ u" by blast
  moreover from "3.IH"(2) [OF u] obtain m2 where "u = m2 @ t" by blast
  ultimately have "s = (m1 @ m2) @ t" by simp
  then show ?case by blast
next
  case (4 r s)
  then show ?case by auto
next
  case (5 r s)
  show ?case
  proof (cases "t = s")
    case True
    then show ?thesis by simp
  next
    case False
    with "5.prems" obtain u where u: "u \<in> set (ms r s)" "length u < length s"
      "t \<in> set (ms (Star r) u)" by (subst (asm) ms.simps(5)) auto
    from "5.IH"(1) [OF u(1)] obtain m1 where "s = m1 @ u" by blast
    moreover from "5.IH"(2) [of u t] u obtain m2 where "u = m2 @ t" by auto
    ultimately have "s = (m1 @ m2) @ t" by simp
    then show ?thesis by blast
  qed
qed

lemma ms_length: "t \<in> set (ms r s) \<Longrightarrow> length t \<le> length s"
  using ms_suffix by fastforce

lemma ms_Seq_iff: "t \<in> set (ms (Seq r1 r2) s) \<longleftrightarrow> (\<exists>u \<in> set (ms r1 s). t \<in> set (ms r2 u))"
  by auto

lemma ms_Star_nonempty: "ms (Star r) s \<noteq> []"
  by (subst ms.simps(5)) simp

lemma ms_Lit_first:
  assumes "l \<noteq> []" and "t \<in> set (ms (Seq (Lit l) r) s)"
  shows "length t < length s \<and> prefix l s"
proof -
  from assms(2) obtain u where u: "u \<in> set (ms (Lit l) s)" "t \<in> set (ms r u)" by auto
  then have p: "prefix l s" and ud: "u = drop (length l) s" by (auto split: if_splits)
  from p obtain b where b: "s = l @ b" by (auto simp: prefix_def)
  have "length u < length s" using assms(1) ud b by simp
  then show ?thesis using ms_length [OF u(2)] p by simp
qed

subsection \<open>Substitution, one position at a time\<close>

lemma re_sub_no_match: "ms r (c # s) = [] \<Longrightarrow> re_sub r f (c # s) = c # re_sub r f s"
  by simp

lemma re_sub_match:
  "ms r (c # s) = t # ts \<Longrightarrow> length t < length (c # s) \<Longrightarrow>
     re_sub r f (c # s) = f (take (length (c # s) - length t) (c # s)) @ re_sub r f t"
  by simp

lemma re_sub_Nil: "ms r [] = [] \<Longrightarrow> re_sub r f [] = []"
  by simp

subsection \<open>The conversion chains\<close>

lemma prefix_append_drop:
  "prefix (a @ b) s \<longleftrightarrow> prefix a s \<and> prefix b (drop (length a) s)"
  by (auto simp: prefix_def)

lemma ms_chain_head: "ms (chain_rx rest) s \<noteq> [] \<Longrightarrow> prefix chain_head s"
  by (auto simp: chain_rx_def chain_head_def split: if_splits)

lemma chain_head_S: "prefix chain_head s \<Longrightarrow> \<exists>t. s = CHR ''S'' # t"
  by (cases s) (auto simp: chain_head_def)

text \<open>Text in which no chain begins is copied, when what follows cannot complete a chain
  head begun in it.\<close>

lemma re_sub_skip:
  assumes "\<not> contains chain_head pre"
    and "\<And>u v. chain_head = u @ v \<Longrightarrow> u \<noteq> [] \<Longrightarrow> v \<noteq> [] \<Longrightarrow> \<not> prefix v w"
  shows "re_sub (chain_rx rest) f (pre @ w) = pre @ re_sub (chain_rx rest) f w"
  using assms(1)
proof (induction pre)
  case Nil
  then show ?case by simp
next
  case (Cons c pre)
  have no: "\<not> prefix chain_head (c # pre @ w)"
  proof
    assume "prefix chain_head (c # pre @ w)"
    then have "prefix chain_head ((c # pre) @ w)" by simp
    then consider "prefix chain_head (c # pre)"
      | v where "chain_head = (c # pre) @ v" "prefix v w"
      unfolding prefix_append by blast
    then show False
    proof cases
      case 1
      then have "contains chain_head (c # pre)" by simp
      then show False using Cons.prems by simp
    next
      case 2
      show False
      proof (cases "v = []")
        case True
        then have "prefix chain_head (c # pre)" using 2(1) by simp
        then have "contains chain_head (c # pre)" by simp
        then show False using Cons.prems by simp
      next
        case False
        then show False using assms(2) [OF 2(1)] 2(2) by simp
      qed
    qed
  qed
  then have "ms (chain_rx rest) (c # pre @ w) = []"
    using ms_chain_head by blast
  moreover have "\<not> contains chain_head pre" using Cons.prems by simp
  ultimately show ?case using Cons.IH by simp
qed

lemma no_straddle_S:
  assumes "chain_head = u @ v" "u \<noteq> []" "v \<noteq> []"
  shows "\<not> prefix v (CHR ''S'' # y)"
proof
  assume p: "prefix v (CHR ''S'' # y)"
  from assms(3) obtain v0 v' where v: "v = v0 # v'" by (cases v) auto
  with p have "v0 = CHR ''S''" by simp
  then have "CHR ''S'' \<in> set v" using v by simp
  moreover from assms(2) obtain u0 u' where "u = u0 # u'" by (cases u) auto
  with assms(1) have "tl chain_head = u' @ v" by (metis append_Cons list.sel(3))
  ultimately have "CHR ''S'' \<in> set (tl chain_head)" by simp
  then show False by (simp add: chain_head_def)
qed

lemma no_straddle_cu:
  assumes "chain_head = u @ v" "u \<noteq> []" "v \<noteq> []"
  shows "\<not> prefix v (CHR ''c'' # CHR ''u'' # y)"
  using assms
  by (auto simp: chain_head_def Cons_eq_append_conv)

lemma re_sub_at:
  assumes "ms r (m @ t) = t # ts" and "m \<noteq> []"
  shows "re_sub r f (m @ t) = f m @ re_sub r f t"
proof -
  from assms(2) obtain c m' where m: "m = c # m'" by (cases m) auto
  have "length t < length (c # m' @ t)" by simp
  moreover have "take (length (c # m' @ t) - length t) (c # m' @ t) = c # m'" by simp
  ultimately show ?thesis using assms(1) unfolding m by simp
qed

lemma skip_S:
  "\<not> contains chain_head pre \<Longrightarrow>
     re_sub (chain_rx rest) f (pre @ CHR ''S'' # y) = pre @ re_sub (chain_rx rest) f (CHR ''S'' # y)"
  by (rule re_sub_skip) (auto dest: no_straddle_S)

lemma skip_cu:
  "\<not> contains chain_head pre \<Longrightarrow>
     re_sub (chain_rx rest) f (pre @ CHR ''c'' # CHR ''u'' # y)
       = pre @ re_sub (chain_rx rest) f (CHR ''c'' # CHR ''u'' # y)"
  by (rule re_sub_skip) (auto dest: no_straddle_cu)

lemma copy_call:
  "re_sub (chain_rx rest) f (''current_unix_timestamp()'' @ y)
     = ''current_unix_timestamp()'' @ re_sub (chain_rx rest) f y"
  by (simp add: chain_rx_def)

lemma copy_call_1000:
  "re_sub (chain_rx rest) f (''current_unix_timestamp() * 1000'' @ y)
     = ''current_unix_timestamp() * 1000'' @ re_sub (chain_rx rest) f y"
  by (simp add: chain_rx_def)

lemma ms_secs:
  "ms (chain_rx ''?.as_secs()'') (''SystemTime::now().duration_since(UNIX_EPOCH)?.as_secs()'' @ y) = [y]"
  "ms (chain_rx ''?.as_secs()'')
     (''SystemTime::now().duration_since(std::time::UNIX_EPOCH)?.as_secs()'' @ y) = [y]"
  by (simp_all add: chain_rx_def)

lemma sub_secs:
  "re_sub (chain_rx ''?.as_secs()'') f
     (''SystemTime::now().duration_since(UNIX_EPOCH)?.as_secs()'' @ y)
   = f ''SystemTime::now().duration_since(UNIX_EPOCH)?.as_secs()''
       @ re_sub (chain_rx ''?.as_secs()'') f y"
  "re_sub (chain_rx ''?.as_secs()'') f
     (''SystemTime::now().duration_since(std::time::UNIX_EPOCH)?.as_secs()'' @ y)
   = f ''SystemTime::now().duration_since(std::time::UNIX_EPOCH)?.as_secs()''
       @ re_sub (chain_rx ''?.as_secs()'') f y"
  by (rule re_sub_at, rule ms_secs, simp)+

lemma copy_secs:
  "re_sub (chain_rx ''?.as_millis() as u64'') f
     (''SystemTime::now().duration_since(UNIX_EPOCH)?.as_secs()'' @ y)
   = ''SystemTime::now().duration_since(UNIX_EPOCH)?.as_secs()''
       @ re_sub (chain_rx ''?.as_millis() as u64'') f y"
  "re_sub (chain_rx ''?.as_millis() as u64'') f
     (''SystemTime::now().duration_since(std::time::UNIX_EPOCH)?.as_secs()'' @ y)
   = ''SystemTime::now().duration_since(std::time::UNIX_EPOCH)?.as_secs()''
       @ re_sub (chain_rx ''?.as_millis() as u64'') f y"
  by (simp_all add: chain_rx_def)

lemma skip_chain:
  assumes "\<not> contains chain_head pre" and "prefix chain_head w"
  shows "re_sub (chain_rx rest) f (pre @ w) = pre @ re_sub (chain_rx rest) f w"
proof -
  from assms(2) obtain t where "w = CHR ''S'' # t" using chain_head_S by blast
  then show ?thesis using skip_S [OF assms(1)] by simp
qed

lemma skip_call:
  assumes "\<not> contains chain_head pre" and "prefix ''current_unix_timestamp()'' w"
  shows "re_sub (chain_rx rest) f (pre @ w) = pre @ re_sub (chain_rx rest) f w"
proof -
  from assms(2) obtain t where "w = CHR ''c'' # CHR ''u'' # t"
    by (auto simp: prefix_def)
  then show ?thesis using skip_cu [OF assms(1)] by simp
qed

lemma ms_millis:
  "ms (chain_rx ''?.as_millis() as u64'')
     (''SystemTime::now().duration_since(UNIX_EPOCH)?.as_millis() as u64'' @ y) = [y]"
  "ms (chain_rx ''?.as_millis() as u64'')
     (''SystemTime::now().duration_since(std::time::UNIX_EPOCH)?.as_millis() as u64'' @ y) = [y]"
  by (simp_all add: chain_rx_def)

lemma sub_millis:
  "re_sub (chain_rx ''?.as_millis() as u64'') f
     (''SystemTime::now().duration_since(UNIX_EPOCH)?.as_millis() as u64'' @ y)
   = f ''SystemTime::now().duration_since(UNIX_EPOCH)?.as_millis() as u64''
       @ re_sub (chain_rx ''?.as_millis() as u64'') f y"
  "re_sub (chain_rx ''?.as_millis() as u64'') f
     (''SystemTime::now().duration_since(std::time::UNIX_EPOCH)?.as_millis() as u64'' @ y)
   = f ''SystemTime::now().duration_since(std::time::UNIX_EPOCH)?.as_millis() as u64''
       @ re_sub (chain_rx ''?.as_millis() as u64'') f y"
  by (rule re_sub_at, rule ms_millis, simp)+

lemma ms_unwrap:
  "ms (chain_rx ''.unwrap().as_millis()'')
     (''SystemTime::now().duration_since(UNIX_EPOCH).unwrap().as_millis()'' @ y) = [y]"
  "ms (chain_rx ''.unwrap().as_millis()'')
     (''SystemTime::now().duration_since(std::time::UNIX_EPOCH).unwrap().as_millis()'' @ y) = [y]"
  by (simp_all add: chain_rx_def)

lemma sub_unwrap:
  "re_sub (chain_rx ''.unwrap().as_millis()'') f
     (''SystemTime::now().duration_since(UNIX_EPOCH).unwrap().as_millis()'' @ y)
   = f ''SystemTime::now().duration_since(UNIX_EPOCH).unwrap().as_millis()''
       @ re_sub (chain_rx ''.unwrap().as_millis()'') f y"
  "re_sub (chain_rx ''.unwrap().as_millis()'') f
     (''SystemTime::now().duration_since(std::time::UNIX_EPOCH).unwrap().as_millis()'' @ y)
   = f ''SystemTime::now().duration_since(std::time::UNIX_EPOCH).unwrap().as_millis()''
       @ re_sub (chain_rx ''.unwrap().as_millis()'') f y"
  by (rule re_sub_at, rule ms_unwrap, simp)+

lemma copy_unwrap:
  "re_sub (chain_rx ''?.as_millis() as u64'') f
     (''SystemTime::now().duration_since(UNIX_EPOCH).unwrap().as_millis()'' @ y)
   = ''SystemTime::now().duration_since(UNIX_EPOCH).unwrap().as_millis()''
       @ re_sub (chain_rx ''?.as_millis() as u64'') f y"
  "re_sub (chain_rx ''?.as_millis() as u64'') f
     (''SystemTime::now().duration_since(std::time::UNIX_EPOCH).unwrap().as_millis()'' @ y)
   = ''SystemTime::now().duration_since(std::time::UNIX_EPOCH).unwrap().as_millis()''
       @ re_sub (chain_rx ''?.as_millis() as u64'') f y"
  "re_sub (chain_rx ''?.as_secs()'') f
     (''SystemTime::now().duration_since(UNIX_EPOCH).unwrap().as_millis()'' @ y)
   = ''SystemTime::now().duration_since(UNIX_EPOCH).unwrap().as_millis()''
       @ re_sub (chain_rx ''?.as_secs()'') f y"
  "re_sub (chain_rx ''?.as_secs()'') f
     (''SystemTime::now().duration_since(std::time::UNIX_EPOCH).unwrap().as_millis()'' @ y)
   = ''SystemTime::now().duration_since(std::time::UNIX_EPOCH).unwrap().as_millis()''
       @ re_sub (chain_rx ''?.as_secs()'') f y"
  by (simp_all add: chain_rx_def)

text \<open>A chain that a pattern does not match is copied; a chain that it matches is
  replaced; the replacement is copied by the later patterns.\<close>

lemma replace_calls_copy:
  assumes "\<not> contains chain_head pre"
    and "prefix chain_head x"
    and "\<And>y. re_sub (chain_rx ''?.as_millis() as u64'') (\<lambda>m. ''current_unix_timestamp() * 1000'') (x @ y)
            = a @ re_sub (chain_rx ''?.as_millis() as u64'') (\<lambda>m. ''current_unix_timestamp() * 1000'') y"
    and "prefix chain_head a \<or> prefix ''current_unix_timestamp()'' a"
    and "\<And>y. re_sub (chain_rx ''?.as_secs()'') (\<lambda>m. ''current_unix_timestamp()'') (a @ y)
            = b @ re_sub (chain_rx ''?.as_secs()'') (\<lambda>m. ''current_unix_timestamp()'') y"
    and "prefix chain_head b \<or> prefix ''current_unix_timestamp()'' b"
    and "\<And>y. re_sub (chain_rx ''.unwrap().as_millis()'') (\<lambda>m. ''current_unix_timestamp() * 1000'') (b @ y)
            = c @ re_sub (chain_rx ''.unwrap().as_millis()'') (\<lambda>m. ''current_unix_timestamp() * 1000'') y"
  shows "replace_calls (pre @ x @ post) = pre @ c @ replace_calls post"
proof -
  have skip: "re_sub (chain_rx rest) f (pre @ w @ y) = pre @ re_sub (chain_rx rest) f (w @ y)"
    if "prefix chain_head w \<or> prefix ''current_unix_timestamp()'' w" for rest f w y
    using that skip_chain [OF assms(1), of "w @ y"] skip_call [OF assms(1), of "w @ y"]
    by auto
  show ?thesis
    unfolding replace_calls_def
    by (simp only: skip [OF disjI1 [OF assms(2)]] assms(3) skip [OF assms(4)] assms(5)
        skip [OF assms(6)] assms(7))
qed

lemma replace_calls_chains:
  assumes "\<not> contains chain_head pre"
  shows
    "replace_calls (pre @ ''SystemTime::now().duration_since(UNIX_EPOCH)?.as_secs()'' @ post)
       = pre @ ''current_unix_timestamp()'' @ replace_calls post"
    "replace_calls
       (pre @ ''SystemTime::now().duration_since(std::time::UNIX_EPOCH)?.as_secs()'' @ post)
       = pre @ ''current_unix_timestamp()'' @ replace_calls post"
    "replace_calls
       (pre @ ''SystemTime::now().duration_since(UNIX_EPOCH)?.as_millis() as u64'' @ post)
       = pre @ ''current_unix_timestamp() * 1000'' @ replace_calls post"
    "replace_calls
       (pre @ ''SystemTime::now().duration_since(std::time::UNIX_EPOCH)?.as_millis() as u64''
          @ post)
       = pre @ ''current_unix_timestamp() * 1000'' @ replace_calls post"
    "replace_calls
       (pre @ ''SystemTime::now().duration_since(UNIX_EPOCH).unwrap().as_millis()'' @ post)
       = pre @ ''current_unix_timestamp() * 1000'' @ replace_calls post"
    "replace_calls
       (pre @ ''SystemTime::now().duration_since(std::time::UNIX_EPOCH).unwrap().as_millis()''
          @ post)
       = pre @ ''current_unix_timestamp() * 1000'' @ replace_calls post"
proof -
  show "replace_calls (pre @ ''SystemTime::now().duration_since(UNIX_EPOCH)?.as_secs()'' @ post)
       = pre @ ''current_unix_timestamp()'' @ replace_calls post"
    by (rule replace_calls_copy [OF assms _ copy_secs(1) _ sub_secs(1) _ copy_call])
       (simp_all add: chain_head_def)
  show "replace_calls
       (pre @ ''SystemTime::now().duration_since(std::time::UNIX_EPOCH)?.as_secs()'' @ post)
       = pre @ ''current_unix_timestamp()'' @ replace_calls post"
    by (rule replace_calls_copy [OF assms _ copy_secs(2) _ sub_secs(2) _ copy_call])
       (simp_all add: chain_head_def)
  show "replace_calls
       (pre @ ''SystemTime::now().duration_since(UNIX_EPOCH)?.as_millis() as u64'' @ post)
       = pre @ ''current_unix_timestamp() * 1000'' @ replace_calls post"
    by (rule replace_calls_copy [OF assms _ sub_millis(1) _ copy_call_1000 _ copy_call_1000])
       (simp_all add: chain_head_def)
  show "replace_calls
       (pre @ ''SystemTime::now().duration_since(std::time::UNIX_EPOCH)?.as_millis() as u64''
          @ post)
       = pre @ ''current_unix_timestamp() * 1000'' @ replace_calls post"
    by (rule replace_calls_copy [OF assms _ sub_millis(2) _ copy_call_1000 _ copy_call_1000])
       (simp_all add: chain_head_def)
  show "replace_calls
       (pre @ ''SystemTime::now().duration_since(UNIX_EPOCH).unwrap().as_millis()'' @ post)
       = pre @ ''current_unix_timestamp() * 1000'' @ replace_calls post"
    by (rule replace_calls_copy [OF assms _ copy_unwrap(1) _ copy_unwrap(3) _ sub_unwrap(1)])
       (simp_all add: chain_head_def)
  show "replace_calls
       (pre @ ''SystemTime::now().duration_since(std::time::UNIX_EPOCH).unwrap().as_millis()''
          @ post)
       = pre @ ''current_unix_timestamp() * 1000'' @ replace_calls post"
    by (rule replace_calls_copy [OF assms _ copy_unwrap(2) _ copy_unwrap(4) _ sub_unwrap(2)])
       (simp_all add: chain_head_def)
qed

subsection \<open>Line by line\<close>

lemma prefix_before_char:
  assumes "c \<notin> set x"
  shows "prefix x (u @ c # v) \<longleftrightarrow> prefix x u"
proof
  assume "prefix x (u @ c # v)"
  then consider "prefix x u" | us where "x = u @ us" "prefix us (c # v)"
    unfolding prefix_append by blast
  then show "prefix x u"
  proof cases
    case 1
    then show ?thesis .
  next
    case 2
    show ?thesis
    proof (cases us)
      case Nil
      then show ?thesis using 2(1) by simp
    next
      case (Cons a as)
      then have "a = c" using 2(2) by simp
      then have "c \<in> set x" using 2(1) Cons by simp
      then show ?thesis using assms by simp
    qed
  qed
next
  assume "prefix x u"
  then show "prefix x (u @ c # v)" by simp
qed

lemma occurrences_of_zero: "x \<noteq> [] \<Longrightarrow> occurrences_of x s = 0 \<longleftrightarrow> \<not> contains x s"
  by (induction s) auto

lemma occurrences_of_line:
  "CHR 0x0A \<notin> set x \<Longrightarrow>
     occurrences_of x (a @ CHR 0x0A # b) = occurrences_of x a + occurrences_of x (CHR 0x0A # b)"
proof (induction a)
  case Nil
  then show ?case by simp
next
  case (Cons c a)
  have "prefix x (c # a @ CHR 0x0A # b) \<longleftrightarrow> prefix x (c # a)"
    using prefix_before_char [OF Cons.prems, of "c # a" b] by simp
  then show ?case using Cons by simp
qed

lemma ms_lits_line:
  "lits_only r \<Longrightarrow> ms r (u @ CHR 0x0A # v) = map (\<lambda>t. t @ CHR 0x0A # v) (ms r u)"
proof (induction r arbitrary: u)
  case (Lit l)
  then have nl: "CHR 0x0A \<notin> set l" by simp
  show ?case
  proof (cases "prefix l u")
    case True
    then have "length l \<le> length u" by (rule prefix_length_le)
    then show ?thesis using True prefix_before_char [OF nl, of u v] by simp
  next
    case False
    then show ?thesis using prefix_before_char [OF nl, of u v] by simp
  qed
next
  case (Seq r1 r2)
  then have 1: "ms r1 (u @ CHR 0x0A # v) = map (\<lambda>t. t @ CHR 0x0A # v) (ms r1 u)"
    and 2: "\<And>t. ms r2 (t @ CHR 0x0A # v) = map (\<lambda>t. t @ CHR 0x0A # v) (ms r2 t)"
    by simp_all
  show ?case by (simp add: 1 2 map_concat comp_def)
next
  case (Opt r)
  then show ?case by simp
qed simp_all

lemma re_sub_line:
  assumes loc: "\<And>u. ms r (u @ CHR 0x0A # v) = map (\<lambda>t. t @ CHR 0x0A # v) (ms r u)"
    and first: "\<And>s t. t \<in> set (ms r s) \<Longrightarrow> length t < length s \<and> s \<noteq> [] \<and> hd s \<noteq> CHR 0x0A"
  shows "re_sub r f (u @ CHR 0x0A # v) = re_sub r f u @ CHR 0x0A # re_sub r f v"
proof (induction u rule: length_induct)
  case (1 u)
  have e: "ms r [] = []" using first [of _ "[]"] by (cases "ms r []") auto
  have n: "ms r (CHR 0x0A # v) = []"
    using first [of _ "CHR 0x0A # v"] by (cases "ms r (CHR 0x0A # v)") auto
  show ?case
  proof (cases u)
    case Nil
    then show ?thesis using e n by simp
  next
    case (Cons c u')
    have m: "ms r (c # u' @ CHR 0x0A # v) = map (\<lambda>t. t @ CHR 0x0A # v) (ms r (c # u'))"
      using loc [of "c # u'"] by simp
    show ?thesis
    proof (cases "ms r (c # u')")
      case Nil
      then have "ms r (c # u' @ CHR 0x0A # v) = []" using m by simp
      moreover have "re_sub r f (u' @ CHR 0x0A # v) = re_sub r f u' @ CHR 0x0A # re_sub r f v"
        using "1.IH" Cons by simp
      ultimately show ?thesis using Nil Cons by simp
    next
      case (Cons t ts)
      then have lt: "length t < length (c # u')" using first [of t "c # u'"] by simp
      have m': "ms r (c # u' @ CHR 0x0A # v) = (t @ CHR 0x0A # v) # map (\<lambda>t. t @ CHR 0x0A # v) ts"
        using m Cons by simp
      have ih: "re_sub r f (t @ CHR 0x0A # v) = re_sub r f t @ CHR 0x0A # re_sub r f v"
        using "1.IH" lt \<open>u = c # u'\<close> by simp
      have "take k ((c # u') @ w) = take k (c # u')" if "k \<le> length (c # u')" for k w
        using that by (simp del: append_Cons)
      from this [of "length (c # u') - length t" "CHR 0x0A # v"]
      have tk: "take (length (c # u' @ CHR 0x0A # v) - length (t @ CHR 0x0A # v)) (c # u' @ CHR 0x0A # v)
          = take (length (c # u') - length t) (c # u')"
        using lt by simp
      have "re_sub r f (c # u' @ CHR 0x0A # v)
          = f (take (length (c # u') - length t) (c # u')) @ re_sub r f (t @ CHR 0x0A # v)"
        using m' lt tk by (subst re_sub.simps) simp
      moreover have "re_sub r f (c # u')
          = f (take (length (c # u') - length t) (c # u')) @ re_sub r f t"
        using Cons lt by (subst re_sub.simps) simp
      ultimately show ?thesis using ih \<open>u = c # u'\<close> by simp
    qed
  qed
qed

lemma chain_first:
  assumes "t \<in> set (ms (chain_rx rest) s)"
  shows "length t < length s \<and> s \<noteq> [] \<and> hd s \<noteq> CHR 0x0A"
proof -
  have "t \<in> set (ms (Seq (Lit ''SystemTime::now().duration_since('')
       (Seq (Opt (Lit ''std::time::'')) (Lit (''UNIX_EPOCH)'' @ rest)))) s)"
    using assms unfolding chain_rx_def .
  then have "length t < length s \<and> prefix ''SystemTime::now().duration_since('' s"
    by (rule ms_Lit_first [rotated]) simp
  then show ?thesis by (cases s) auto
qed

lemma lits_only_chain: "CHR 0x0A \<notin> set rest \<Longrightarrow> lits_only (chain_rx rest)"
  by (simp add: chain_rx_def)

lemma re_sub_chain_line:
  "CHR 0x0A \<notin> set rest \<Longrightarrow>
     re_sub (chain_rx rest) f (u @ CHR 0x0A # v)
       = re_sub (chain_rx rest) f u @ CHR 0x0A # re_sub (chain_rx rest) f v"
  by (rule re_sub_line [OF ms_lits_line [OF lits_only_chain] chain_first])

lemma replace_calls_line:
  "replace_calls (u @ CHR 0x0A # v) = replace_calls u @ CHR 0x0A # replace_calls v"
  by (simp add: replace_calls_def re_sub_chain_line)

subsection \<open>The inserted helper\<close>

lemma helper_function_lines:
  "\<exists>z. helper_function
     = CHR 0x0A # ''fn current_unix_timestamp() -> u64 {'' @ CHR 0x0A # z"
  by (simp add: helper_function_def text_lines_def)

lemma helper_function_once:
  "occurrences_of ''fn current_unix_timestamp() -> u64'' (CHR 0x0A # helper_function) = 1"
  by (simp add: helper_function_def text_lines_def)

lemma replace_calls_signature_line:
  "replace_calls ''fn current_unix_timestamp() -> u64 {'' = ''fn current_unix_timestamp() -> u64 {''"
  by (simp add: replace_calls_def chain_rx_def)

lemma replace_calls_keeps_helper:
  "contains ''fn current_unix_timestamp() -> u64''
     (replace_calls (a @ CHR 0x0A # helper_function @ b))"
proof -
  obtain z where z: "helper_function
     = CHR 0x0A # ''fn current_unix_timestamp() -> u64 {'' @ CHR 0x0A # z"
    using helper_function_lines by blast
  have "a @ CHR 0x0A # helper_function @ b
      = (a @ [CHR 0x0A]) @ CHR 0x0A # (''fn current_unix_timestamp() -> u64 {'' @ CHR 0x0A # (z @ b))"
    unfolding z by simp
  then have "replace_calls (a @ CHR 0x0A # helper_function @ b)
      = replace_calls (a @ [CHR 0x0A]) @ CHR 0x0A #
          (''fn current_unix_timestamp() -> u64 {'' @ CHR 0x0A # replace_calls (z @ b))"
    by (simp only: replace_calls_line replace_calls_signature_line)
  also have "\<dots> = (replace_calls (a @ [CHR 0x0A]) @ [CHR 0x0A])
      @ ''fn current_unix_timestamp() -> u64''
      @ ('' {'' @ CHR 0x0A # replace_calls (z @ b))"
    by simp
  finally show ?thesis
    by (simp only: contains_self_append)
qed

lemma find_from_newline:
  assumes "find_from [CHR 0x0A] content i = Some k"
  shows "\<exists>b. drop k content = CHR 0x0A # b"
proof -
  from assms obtain j where j: "find [CHR 0x0A] (drop i content) = Some j" "k = i + j"
    by (auto simp: find_from_def)
  from find_Some_prefix [OF j(1)] have "prefix [CHR 0x0A] (drop j (drop i content))" by simp
  then have "prefix [CHR 0x0A] (drop k content)" using j(2) by (simp add: add.commute)
  then show ?thesis by (auto simp: prefix_def)
qed

lemma add_helper_below_import:
  assumes "\<not> contains ''fn current_unix_timestamp() -> u64'' content"
    and "rfind ''use '' content = Some i"
    and "find_from [CHR 0x0A] content i = Some k"
  shows "add_helper content = take k content @ CHR 0x0A # helper_function @ drop k content"
    and "occurrences_of ''fn current_unix_timestamp() -> u64'' (add_helper content) = 1"
proof -
  show eq: "add_helper content = take k content @ CHR 0x0A # helper_function @ drop k content"
    using assms by (simp add: add_helper_def)
  obtain b where b: "drop k content = CHR 0x0A # b"
    using find_from_newline [OF assms(3)] by blast
  have c: "content = take k content @ CHR 0x0A # b"
    using b by (metis append_take_drop_id)
  have "\<not> contains ''fn current_unix_timestamp() -> u64'' (take k content)"
    using assms(1) contains_append_left [of _ "take k content" "CHR 0x0A # b"] c by auto
  then have 1: "occurrences_of ''fn current_unix_timestamp() -> u64'' (take k content) = 0"
    by (simp add: occurrences_of_zero)
  have "\<not> contains ''fn current_unix_timestamp() -> u64'' (CHR 0x0A # b)"
    using assms(1) contains_append_right [of _ "CHR 0x0A # b" "take k content"] c by auto
  then have 2: "occurrences_of ''fn current_unix_timestamp() -> u64'' (CHR 0x0A # b) = 0"
    by (simp add: occurrences_of_zero)
  have "occurrences_of ''fn current_unix_timestamp() -> u64''
          (take k content @ CHR 0x0A # ((helper_function @ CHR 0x0A # b)))
      = occurrences_of ''fn current_unix_timestamp() -> u64'' (take k content)
        + occurrences_of ''fn current_unix_timestamp() -> u64''
            ((CHR 0x0A # helper_function) @ CHR 0x0A # b)"
    by (subst occurrences_of_line) simp_all
  also have "\<dots> = 0 + (1 + 0)"
    unfolding 1
    by (subst occurrences_of_line) (simp_all only: helper_function_once 2, simp)
  finally show "occurrences_of ''fn current_unix_timestamp() -> u64'' (add_helper content) = 1"
    unfolding eq b by simp
qed

lemma add_helper_form:
  assumes "\<not> contains ''fn current_unix_timestamp() -> u64'' content"
    and "contains ''use '' content"
  shows "\<exists>a b. add_helper content = a @ CHR 0x0A # helper_function @ b"
proof -
  from assms(2) obtain i where i: "rfind ''use '' content = Some i"
    using rfind_None_iff [of "''use ''" content] by (cases "rfind ''use '' content") auto
  show ?thesis
  proof (cases "find_from [CHR 0x0A] content i")
    case None
    then have "add_helper content
       = butlast content @ CHR 0x0A # helper_function @ drop (length content - 1) content"
      using assms(1) i by (simp add: add_helper_def)
    then show ?thesis by blast
  next
    case (Some k)
    then have "add_helper content = take k content @ CHR 0x0A # helper_function @ drop k content"
      using assms(1) i by (simp add: add_helper_def)
    then show ?thesis by blast
  qed
qed

lemma helper_not_added_again:
  assumes "\<not> contains ''fn current_unix_timestamp() -> u64'' content"
    and "contains ''use '' content"
  shows "contains ''fn current_unix_timestamp() -> u64'' (replace_calls (add_helper content))"
    and "add_helper (replace_calls (add_helper content)) = replace_calls (add_helper content)"
proof -
  obtain a b where "add_helper content = a @ CHR 0x0A # helper_function @ b"
    using add_helper_form [OF assms] by blast
  then show 1: "contains ''fn current_unix_timestamp() -> u64''
      (replace_calls (add_helper content))"
    using replace_calls_keeps_helper by simp
  then show "add_helper (replace_calls (add_helper content)) = replace_calls (add_helper content)"
    by (simp add: add_helper_def)
qed

subsection \<open>Searching\<close>

lemma re_search_Some:
  "re_search r s = Some (b, m, a) \<Longrightarrow>
     s = b @ m @ a \<and> (\<exists>ts. ms r (m @ a) = a # ts) \<and> (\<forall>i<length b. ms r (drop i s) = [])"
proof (induction s arbitrary: b)
  case Nil
  then obtain t ts where t: "ms r [] = t # ts" "b = []" "m = []" "a = []"
    by (auto split: list.splits)
  then have "t = []" using ms_length [of t r "[]"] by simp
  then show ?case using t by simp
next
  case (Cons c s)
  show ?case
  proof (cases "ms r (c # s)")
    case Nil
    with Cons.prems obtain b' where b': "re_search r s = Some (b', m, a)" "b = c # b'"
      by auto
    from Cons.IH [OF b'(1)] have ih: "s = b' @ m @ a" "\<exists>ts. ms r (m @ a) = a # ts"
      "\<forall>i<length b'. ms r (drop i s) = []" by auto
    have "ms r (drop i (c # s)) = []" if "i < length b" for i
    proof (cases i)
      case 0
      then show ?thesis using Nil by simp
    next
      case (Suc j)
      then show ?thesis using ih(3) that b'(2) by simp
    qed
    then show ?thesis using ih b'(2) by simp
  next
    case (Cons t ts)
    with Cons.prems have e: "b = []" "m = take (length (c # s) - length t) (c # s)" "a = t"
      by auto
    obtain m' where m': "c # s = m' @ t" using ms_suffix [of t r "c # s"] Cons by auto
    then have "m = m'" using e(2) by simp
    then show ?thesis using e m' Cons by simp
  qed
qed

lemma re_found_iff: "re_found r s \<longleftrightarrow> (\<exists>i\<le>length s. ms r (drop i s) \<noteq> [])"
proof (induction s)
  case Nil
  then show ?case by (auto simp: re_found_def split: list.splits)
next
  case (Cons c s)
  have "re_found r (c # s) \<longleftrightarrow> ms r (c # s) \<noteq> [] \<or> re_found r s"
    by (auto simp: re_found_def split: list.splits)
  also have "\<dots> \<longleftrightarrow> ms r (c # s) \<noteq> [] \<or> (\<exists>i\<le>length s. ms r (drop i s) \<noteq> [])"
    using Cons by simp
  also have "\<dots> \<longleftrightarrow> (\<exists>i\<le>length (c # s). ms r (drop i (c # s)) \<noteq> [])"
  proof
    assume "ms r (c # s) \<noteq> [] \<or> (\<exists>i\<le>length s. ms r (drop i s) \<noteq> [])"
    then show "\<exists>i\<le>length (c # s). ms r (drop i (c # s)) \<noteq> []"
    proof
      assume "ms r (c # s) \<noteq> []"
      then have "0 \<le> length (c # s) \<and> ms r (drop 0 (c # s)) \<noteq> []" by simp
      then show ?thesis by blast
    next
      assume "\<exists>i\<le>length s. ms r (drop i s) \<noteq> []"
      then obtain i where "i \<le> length s" "ms r (drop i s) \<noteq> []" by blast
      then have "Suc i \<le> length (c # s) \<and> ms r (drop (Suc i) (c # s)) \<noteq> []" by simp
      then show ?thesis by blast
    qed
  next
    assume "\<exists>i\<le>length (c # s). ms r (drop i (c # s)) \<noteq> []"
    then obtain i where i: "i \<le> length (c # s)" "ms r (drop i (c # s)) \<noteq> []" by blast
    show "ms r (c # s) \<noteq> [] \<or> (\<exists>i\<le>length s. ms r (drop i s) \<noteq> [])"
    proof (cases i)
      case 0
      then show ?thesis using i by simp
    next
      case (Suc j)
      then have "j \<le> length s \<and> ms r (drop j s) \<noteq> []" using i by simp
      then show ?thesis by blast
    qed
  qed
  finally show ?case .
qed

lemma re_found_mono:
  "(\<And>s. ms r1 s \<noteq> [] \<Longrightarrow> ms r2 s \<noteq> []) \<Longrightarrow> re_found r1 s \<Longrightarrow> re_found r2 s"
  unfolding re_found_iff by blast

lemma re_found_search: "re_found r s \<Longrightarrow> \<exists>b m a. re_search r s = Some (b, m, a)"
  by (cases "re_search r s") (auto simp: re_found_def)

subsection \<open>The run of module declarations\<close>

lemma mods_rx_decl: "mods_rx = Seq decl_rx (Star decl_rx)"
  by (simp add: mods_rx_def decl_rx_def Plus_def)

lemma star_cls_Nil: "ms (Star (Cls k)) [] = [[]]"
  by (subst ms.simps(5)) simp

lemma star_cls_Cons:
  "ms (Star (Cls k)) (c # s) = (if in_cls k c then ms (Star (Cls k)) s @ [c # s] else [c # s])"
  by (subst ms.simps(5)) simp

lemma hd_star_cls: "hd (ms (Star (Cls k)) s) = dropWhile (in_cls k) s"
  by (induction s) (simp_all add: star_cls_Nil star_cls_Cons ms_Star_nonempty)

lemma after_word:
  assumes "\<And>c s. is_word c \<Longrightarrow> R (c # s) = []"
  shows "concat (map R (ms (Star (Cls Word)) s)) = R (dropWhile is_word s)"
  by (induction s) (simp_all add: star_cls_Nil star_cls_Cons assms)

lemma semicolon_not_word: "\<not> is_word CHR '';''"
  by (simp add: is_word_def)

lemma ms_semicolon:
  "ms (Seq (Lit '';'') r) u =
     (case u of [] \<Rightarrow> [] | d # u' \<Rightarrow> if d = CHR '';'' then ms r u' else [])"
  by (cases u) auto

lemma ms_plus_word:
  "ms (Seq (Plus (Cls Word)) r) s =
     (case s of
        [] \<Rightarrow> []
      | c # s2 \<Rightarrow> if is_word c then ms r (dropWhile is_word s2) else [])"
  if "\<And>c s. is_word c \<Longrightarrow> ms r (c # s) = []"
proof (cases s)
  case Nil
  then show ?thesis by (simp add: Plus_def)
next
  case (Cons c s2)
  have "ms (Seq (Plus (Cls Word)) r) (c # s2)
      = (if is_word c then concat (map (ms r) (ms (Star (Cls Word)) s2)) else [])"
    by (simp add: Plus_def)
  then show ?thesis using after_word [of "ms r" s2] that Cons by simp
qed

lemma ms_decl:
  "ms decl_rx s =
     (if prefix ''pub mod '' s
      then (case drop (length ''pub mod '') s of
              [] \<Rightarrow> []
            | c # s2 \<Rightarrow>
                if is_word c
                then (case dropWhile is_word s2 of
                        [] \<Rightarrow> []
                      | d # u \<Rightarrow> if d = CHR '';'' then ms (Star (Cls Space)) u else [])
                else [])
      else [])"
proof -
  have w: "ms (Seq (Lit '';'') (Star (Cls Space))) (c # s) = []" if "is_word c" for c s
    using that semicolon_not_word by (auto simp: ms_semicolon)
  have "ms decl_rx s =
      (if prefix ''pub mod '' s
       then ms (Seq (Plus (Cls Word)) (Seq (Lit '';'') (Star (Cls Space))))
              (drop (length ''pub mod '') s)
       else [])"
    unfolding decl_rx_def by (subst ms.simps(3)) (simp del: ms.simps(3))
  then show ?thesis
    by (simp only: ms_plus_word [OF w] ms_semicolon)
qed

lemma ms_mod:
  "ms mod_rx s =
     (if prefix ''pub mod '' s
      then (case drop (length ''pub mod '') s of
              [] \<Rightarrow> []
            | c # s2 \<Rightarrow>
                if is_word c
                then (case dropWhile is_word s2 of
                        [] \<Rightarrow> []
                      | d # u \<Rightarrow> if d = CHR '';'' then [u] else [])
                else [])
      else [])"
proof -
  have l: "ms (Lit '';'') u = (case u of [] \<Rightarrow> [] | d # u' \<Rightarrow> if d = CHR '';'' then [u'] else [])"
    for u by (cases u) auto
  have w: "ms (Lit '';'') (c # s) = []" if "is_word c" for c s
    using that semicolon_not_word by auto
  have "ms mod_rx s =
      (if prefix ''pub mod '' s
       then ms (Seq (Plus (Cls Word)) (Lit '';'')) (drop (length ''pub mod '') s)
       else [])"
    unfolding mod_rx_def by (subst ms.simps(3)) (simp del: ms.simps(3))
  then show ?thesis
    by (simp only: ms_plus_word [OF w] l)
qed

lemma decl_iff_mod: "ms decl_rx s = [] \<longleftrightarrow> ms mod_rx s = []"
  unfolding ms_decl ms_mod
  by (simp add: ms_Star_nonempty split: list.split del: dropWhile_eq_Nil_conv)

lemma decl_shorter: "t \<in> set (ms decl_rx s) \<Longrightarrow> length t < length s"
proof -
  assume "t \<in> set (ms decl_rx s)"
  then have "t \<in> set (ms (Seq (Lit ''pub mod '')
      (Seq (Plus (Cls Word)) (Seq (Lit '';'') (Star (Cls Space))))) s)"
    unfolding decl_rx_def .
  then have "length t < length s \<and> prefix ''pub mod '' s"
    by (rule ms_Lit_first [rotated]) simp
  then show ?thesis by simp
qed

lemma decl_spaces:
  assumes "ms decl_rx s = t # ts"
  shows "\<exists>u. ms (Star (Cls Space)) u = t # ts"
proof (cases "prefix ''pub mod '' s")
  case False
  then show ?thesis using assms unfolding ms_decl by simp
next
  case True
  show ?thesis
  proof (cases "drop (length ''pub mod '') s")
    case Nil
    then show ?thesis using assms True unfolding ms_decl by simp
  next
    case (Cons c s2)
    show ?thesis
    proof (cases "dropWhile is_word s2")
      case Nil
      then show ?thesis using assms True Cons unfolding ms_decl
        by (simp del: dropWhile_eq_Nil_conv split: if_split_asm)
    next
      case (Cons d u)
      then show ?thesis using assms True \<open>drop (length ''pub mod '') s = c # s2\<close>
        unfolding ms_decl
        by (auto simp del: dropWhile_eq_Nil_conv split: if_split_asm)
    qed
  qed
qed

lemma decl_first:
  assumes "ms decl_rx s = t # ts"
  shows "length t < length s \<and> (t = [] \<or> \<not> is_space (hd t))"
proof -
  have "t \<in> set (ms decl_rx s)" using assms by simp
  then have "length t < length s" by (rule decl_shorter)
  moreover have "t = [] \<or> \<not> is_space (hd t)"
  proof -
    from decl_spaces [OF assms] obtain u where "ms (Star (Cls Space)) u = t # ts" by blast
    then have "t = dropWhile (in_cls Space) u"
      using hd_star_cls [of Space u] by simp
    then show ?thesis using hd_dropWhile [of "in_cls Space" u] by auto
  qed
  ultimately show ?thesis by simp
qed

lemma decl_all_shorter: "filter (\<lambda>t. length t < length s) (ms decl_rx s) = ms decl_rx s"
proof -
  show ?thesis using decl_shorter by (simp add: filter_id_conv)
qed

lemma run_end:
  "s = [] \<or> \<not> is_space (hd s) \<Longrightarrow>
     ms decl_rx (hd (ms (Star decl_rx) s)) = []
     \<and> (hd (ms (Star decl_rx) s) = [] \<or> \<not> is_space (hd (hd (ms (Star decl_rx) s))))"
proof (induction s rule: length_induct)
  case (1 s)
  have st: "ms (Star decl_rx) s = concat (map (ms (Star decl_rx)) (ms decl_rx s)) @ [s]"
    by (subst ms.simps(5)) (simp add: decl_all_shorter)
  show ?case
  proof (cases "ms decl_rx s")
    case Nil
    then show ?thesis using st "1.prems" by simp
  next
    case (Cons t ts)
    from decl_first [OF Cons] have t: "length t < length s" "t = [] \<or> \<not> is_space (hd t)"
      by simp_all
    have h: "hd (ms (Star decl_rx) s) = hd (ms (Star decl_rx) t)"
      using st Cons ms_Star_nonempty [of decl_rx t] by simp
    from "1.IH" t have "ms decl_rx (hd (ms (Star decl_rx) t)) = []
     \<and> (hd (ms (Star decl_rx) t) = [] \<or> \<not> is_space (hd (hd (ms (Star decl_rx) t))))"
      by blast
    then show ?thesis unfolding h .
  qed
qed

lemma mods_first:
  assumes "ms mods_rx s = a # ts"
  shows "ms mod_rx a = [] \<and> (a = [] \<or> \<not> is_space (hd a))"
proof -
  have m: "ms mods_rx s = concat (map (ms (Star decl_rx)) (ms decl_rx s))"
    by (simp add: mods_rx_decl)
  with assms obtain t ts' where t: "ms decl_rx s = t # ts'"
    by (cases "ms decl_rx s") auto
  then have "hd (ms mods_rx s) = hd (ms (Star decl_rx) t)"
    using m ms_Star_nonempty [of decl_rx t] by (simp add: hd_append)
  then have "a = hd (ms (Star decl_rx) t)"
    using assms by simp
  moreover have "t = [] \<or> \<not> is_space (hd t)" using decl_first [OF t] by simp
  ultimately show ?thesis using run_end [of t] decl_iff_mod by simp
qed

lemma mod_then_mods: "ms mod_rx s \<noteq> [] \<Longrightarrow> ms mods_rx s \<noteq> []"
proof -
  assume "ms mod_rx s \<noteq> []"
  then obtain t ts where "ms decl_rx s = t # ts"
    using decl_iff_mod [of s] by (cases "ms decl_rx s") auto
  then show ?thesis
    using ms_Star_nonempty [of decl_rx t] by (simp add: mods_rx_decl)
qed

subsection \<open>The registration\<close>

lemma register_top:
  "\<not> re_found mod_rx c \<Longrightarrow> register_module c = ''pub mod time_utils;'' @ CHR 0x0A # c"
  by (simp add: register_module_def)

lemma register_after_run:
  assumes "re_found mod_rx c"
  shows "\<exists>b m a. c = b @ m @ a
     \<and> register_module c = b @ m @ ''pub mod time_utils;'' @ CHR 0x0A # a
     \<and> (\<forall>i<length b. ms mod_rx (drop i c) = [])
     \<and> m \<noteq> [] \<and> (\<exists>ts. ms mods_rx (m @ a) = a # ts)
     \<and> ms mod_rx a = [] \<and> (a = [] \<or> \<not> is_space (hd a))"
proof -
  have "re_found mods_rx c"
    using assms by (rule re_found_mono [rotated]) (rule mod_then_mods)
  then obtain b m a where s: "re_search mods_rx c = Some (b, m, a)"
    using re_found_search by blast
  from re_search_Some [OF s] obtain ts where f: "c = b @ m @ a" "ms mods_rx (m @ a) = a # ts"
    "\<forall>i<length b. ms mods_rx (drop i c) = []" by blast
  have 1: "\<forall>i<length b. ms mod_rx (drop i c) = []"
    using f(3) mod_then_mods by blast
  have "a \<in> set (ms (Seq decl_rx (Star decl_rx)) (m @ a))"
    using f(2) by (simp add: mods_rx_decl)
  then obtain t where t: "t \<in> set (ms decl_rx (m @ a))" "a \<in> set (ms (Star decl_rx) t)"
    unfolding ms_Seq_iff by blast
  have "length a < length (m @ a)"
    using decl_shorter [OF t(1)] ms_length [OF t(2)] by (rule le_less_trans [rotated])
  then have 2: "m \<noteq> []" by simp
  have 3: "register_module c = b @ m @ ''pub mod time_utils;'' @ CHR 0x0A # a"
    using assms s by (simp add: register_module_def re_sub1_def)
  show ?thesis using f(1) 1 2 3 f(2) mods_first [OF f(2)] by blast
qed

lemma register_present: "contains ''pub mod time_utils;'' (register_module c)"
proof (cases "re_found mod_rx c")
  case True
  then obtain b m a where "register_module c = b @ m @ ''pub mod time_utils;'' @ CHR 0x0A # a"
    using register_after_run by blast
  then have "register_module c = (b @ m) @ ''pub mod time_utils;'' @ (CHR 0x0A # a)" by simp
  then show ?thesis by (simp only: contains_self_append)
next
  case False
  then have "register_module c = [] @ ''pub mod time_utils;'' @ (CHR 0x0A # c)"
    by (simp add: register_top)
  then show ?thesis by (simp only: contains_self_append)
qed

lemma lib_not_utils: "lib_file root \<noteq> utils_file root"
  by (simp add: lib_file_def utils_file_def)

lemma create_helper_lib:
  assumes "utils_dir root \<in> set (dirs st)" "utils_file root \<notin> set (dirs st)"
    "lib_file root \<notin> set (dirs st)" "read_text st (lib_file root) = Some c"
  shows "create_time_helper_functions root st =
     append_fix Created_time_utils_module
       (if \<not> contains ''pub mod time_utils;'' c
        then write_file (lib_file root) (register_module c)
               (write_file (utils_file root) utils_content st)
        else write_file (utils_file root) utils_content st)"
  using assms lib_not_utils [of root]
  by (simp add: create_time_helper_functions_def Let_def read_text_write_file)

subsection \<open>A substitution that removes a character changes the text\<close>

lemma always_has_match:
  "always_has c r \<Longrightarrow> t \<in> set (ms r s) \<Longrightarrow> \<exists>m. s = m @ t \<and> c \<in> set m"
proof (induction r arbitrary: s t)
  case (Lit l)
  then show ?case by (auto simp: prefix_def split: if_splits)
next
  case (Seq r1 r2)
  from Seq.prems(2) obtain u where u: "u \<in> set (ms r1 s)" "t \<in> set (ms r2 u)" by auto
  obtain m1 where m1: "s = m1 @ u" using ms_suffix [OF u(1)] by blast
  obtain m2 where m2: "u = m2 @ t" using ms_suffix [OF u(2)] by blast
  have "c \<in> set m1 \<or> c \<in> set m2"
  proof (cases "always_has c r1")
    case True
    from Seq.IH(1) [OF True u(1)] obtain m where "s = m @ u" "c \<in> set m" by blast
    then show ?thesis using m1 by simp
  next
    case False
    then have "always_has c r2" using Seq.prems(1) by simp
    from Seq.IH(2) [OF this u(2)] obtain m where "u = m @ t" "c \<in> set m" by blast
    then show ?thesis using m2 by simp
  qed
  then have "s = (m1 @ m2) @ t \<and> c \<in> set (m1 @ m2)" using m1 m2 by auto
  then show ?case by blast
qed simp_all

lemma re_sub_count:
  assumes "always_has c r" and "c \<notin> set R"
  shows "count_list (re_sub r (\<lambda>m. R) s) c \<le> count_list s c
     \<and> (re_found r s \<longrightarrow> count_list (re_sub r (\<lambda>m. R) s) c < count_list s c)"
proof (induction s rule: length_induct)
  case (1 s)
  have e: "ms r [] = []"
    using always_has_match [OF assms(1), of _ "[]"] by (cases "ms r []") auto
  show ?case
  proof (cases s)
    case Nil
    then show ?thesis using e by (simp add: re_found_def)
  next
    case (Cons d s')
    show ?thesis
    proof (cases "ms r (d # s')")
      case Nil
      have f: "re_found r (d # s') \<longleftrightarrow> re_found r s'"
        using Nil by (auto simp: re_found_def)
      have "re_sub r (\<lambda>m. R) (d # s') = d # re_sub r (\<lambda>m. R) s'" using Nil by simp
      then show ?thesis using "1.IH" Cons f by simp
    next
      case (Cons t ts)
      then obtain m where m: "d # s' = m @ t" "c \<in> set m"
        using always_has_match [OF assms(1), of t "d # s'"] by auto
      then have lt: "length t < length (d # s')" by (cases m) auto
      have "re_sub r (\<lambda>m. R) (d # s') = R @ re_sub r (\<lambda>m. R) t"
        using Cons lt by (subst re_sub.simps) simp
      moreover have "count_list (re_sub r (\<lambda>m. R) t) c \<le> count_list t c"
        using "1.IH" lt \<open>s = d # s'\<close> by simp
      moreover have "count_list R c = 0" using assms(2) by (simp add: count_list_0_iff)
      moreover have "0 < count_list m c" using m(2) count_list_0_iff [of m c] by auto
      moreover have "count_list (d # s') c = count_list m c + count_list t c"
        unfolding m(1) by simp
      ultimately show ?thesis unfolding \<open>s = d # s'\<close>
        by (simp del: count_list.simps)
    qed
  qed
qed

lemma apply_fixes_changes:
  assumes "\<forall>(r, R) \<in> set fs. always_has c r \<and> c \<notin> set R"
    and "apply_fixes fs l = Some x"
  shows "x \<noteq> l"
  using assms
proof (induction fs)
  case Nil
  then show ?case by simp
next
  case (Cons a fs)
  obtain r R where a: "a = (r, R)" by (cases a)
  show ?case
  proof (cases "re_found r l")
    case True
    then have "x = re_sub r (\<lambda>m. R) l" using Cons.prems(2) a by simp
    moreover have "count_list (re_sub r (\<lambda>m. R) l) c < count_list l c"
      using re_sub_count [of c r R l] Cons.prems(1) a True by simp
    ultimately show ?thesis by auto
  next
    case False
    then show ?thesis using Cons a by simp
  qed
qed

lemma struct_fixes_change:
  assumes "apply_fixes struct_fixes l = Some x"
  shows "x \<noteq> l"
proof -
  have "\<forall>(r, R) \<in> set struct_fixes. always_has CHR ''S'' r \<and> CHR ''S'' \<notin> set R"
    by (simp add: struct_fixes_def field_rx_def)
  then show ?thesis using assms by (rule apply_fixes_changes)
qed

subsection \<open>The characters of a substitution\<close>

lemma re_sub_set:
  assumes "\<And>m. set (f m) \<subseteq> A"
  shows "set (re_sub r f s) \<subseteq> set s \<union> A"
proof (induction s rule: length_induct)
  case (1 s)
  show ?case
  proof (cases s)
    case Nil
    then show ?thesis using assms by (auto split: list.splits)
  next
    case (Cons c s')
    show ?thesis
    proof (cases "ms r (c # s')")
      case Nil
      then have "re_sub r f (c # s') = c # re_sub r f s'" by simp
      then show ?thesis using "1.IH" Cons by auto
    next
      case (Cons t ts)
      obtain m where m: "c # s' = m @ t" using ms_suffix [of t r "c # s'"] Cons by auto
      show ?thesis
      proof (cases "length t < length (c # s')")
        case True
        then have "re_sub r f (c # s')
            = f (take (length (c # s') - length t) (c # s')) @ re_sub r f t"
          using Cons by (subst re_sub.simps) simp
        moreover have "set (re_sub r f t) \<subseteq> set t \<union> A"
          using "1.IH" True \<open>s = c # s'\<close> by simp
        moreover have "set t \<subseteq> set (c # s')" unfolding m by simp
        ultimately show ?thesis using assms \<open>s = c # s'\<close> by auto
      next
        case False
        then have "re_sub r f (c # s') = f [] @ c # re_sub r f s'"
          using Cons by (subst re_sub.simps) simp
        moreover have "set (re_sub r f s') \<subseteq> set s' \<union> A"
          using "1.IH" \<open>s = c # s'\<close> by simp
        ultimately show ?thesis using assms \<open>s = c # s'\<close> by auto
      qed
    qed
  qed
qed

lemma re_sub_keeps_out:
  "c \<notin> set s \<Longrightarrow> c \<notin> set R \<Longrightarrow> c \<notin> set (re_sub r (\<lambda>m. R) s)"
  using re_sub_set [of "\<lambda>m. R" "set R" r s] by auto

lemma replace_calls_no_cr: "CHR 0x0D \<notin> set s \<Longrightarrow> CHR 0x0D \<notin> set (replace_calls s)"
  unfolding replace_calls_def by (intro re_sub_keeps_out) simp_all

lemma helper_function_no_cr: "CHR 0x0D \<notin> set helper_function"
  by (simp add: helper_function_def text_lines_def)

lemma add_helper_no_cr: "CHR 0x0D \<notin> set s \<Longrightarrow> CHR 0x0D \<notin> set (add_helper s)"
  using helper_function_no_cr
  by (auto simp: add_helper_def split: option.splits dest: in_set_takeD in_set_dropD in_set_butlastD)

lemma timestamp_content_no_cr:
  "CHR 0x0D \<notin> set s \<Longrightarrow> CHR 0x0D \<notin> set (timestamp_content p s)"
  by (simp add: timestamp_content_def replace_calls_no_cr add_helper_no_cr)

lemma apply_fixes_keeps_out:
  assumes "\<forall>(r, R) \<in> set fs. c \<notin> set R" and "apply_fixes fs l = Some x" and "c \<notin> set l"
  shows "c \<notin> set x"
  using assms
proof (induction fs)
  case Nil
  then show ?case by simp
next
  case (Cons a fs)
  obtain r R where a: "a = (r, R)" by (cases a)
  show ?case
  proof (cases "re_found r l")
    case True
    then have "x = re_sub r (\<lambda>m. R) l" using Cons.prems(2) a by simp
    then show ?thesis using re_sub_keeps_out [of c l R r] Cons.prems a by simp
  next
    case False
    then show ?thesis using Cons a by simp
  qed
qed

lemma struct_fixes_no_cr:
  assumes "apply_fixes struct_fixes l = Some x" and "CHR 0x0D \<notin> set l"
  shows "CHR 0x0D \<notin> set x"
proof -
  have "\<forall>(r, R) \<in> set struct_fixes. CHR 0x0D \<notin> set R"
    by (simp add: struct_fixes_def)
  then show ?thesis using assms by (rule apply_fixes_keeps_out)
qed

lemma allow_line_no_cr: "CHR 0x0D \<notin> set (allow_line l)"
  by (simp add: allow_line_def)

subsection \<open>The lines of a text\<close>

lemma readlines_line:
  "CHR 0x0A \<notin> set b \<Longrightarrow> readlines (b @ CHR 0x0A # s) = (b @ [CHR 0x0A]) # readlines s"
  by (induction b) auto

lemma readlines_last: "CHR 0x0A \<notin> set b \<Longrightarrow> b \<noteq> [] \<Longrightarrow> readlines b = [b]"
proof (induction b)
  case Nil
  then show ?case by simp
next
  case (Cons c b)
  then show ?case by (cases b) auto
qed

lemma readlines_cases:
  "c = []
   \<or> (CHR 0x0A \<notin> set c \<and> c \<noteq> [] \<and> readlines c = [c])
   \<or> (\<exists>b s. CHR 0x0A \<notin> set b \<and> c = b @ CHR 0x0A # s
          \<and> readlines c = (b @ [CHR 0x0A]) # readlines s)"
proof (cases "CHR 0x0A \<in> set c")
  case False
  then show ?thesis using readlines_last [of c] by auto
next
  case True
  then obtain b s where "c = b @ CHR 0x0A # s" "CHR 0x0A \<notin> set b"
    by (meson split_list_first)
  then show ?thesis using readlines_line [of b s] by blast
qed

lemma readlines_nth_shape:
  "i < length (readlines c) \<Longrightarrow>
     (\<exists>b. CHR 0x0A \<notin> set b \<and> readlines c ! i = b @ [CHR 0x0A])
     \<or> (CHR 0x0A \<notin> set (readlines c ! i) \<and> readlines c ! i \<noteq> [])"
proof (induction i arbitrary: c)
  case 0
  from readlines_cases [of c] 0 show ?case by auto
next
  case (Suc j)
  from readlines_cases [of c] Suc.prems obtain b s where
    c: "readlines c = (b @ [CHR 0x0A]) # readlines s" by auto
  then have "j < length (readlines s)" using Suc.prems by simp
  from Suc.IH [OF this] show ?case using c by simp
qed

lemma readlines_update:
  assumes "i < length (readlines c)"
    and "(\<exists>b b'. CHR 0x0A \<notin> set b \<and> CHR 0x0A \<notin> set b'
            \<and> readlines c ! i = b @ [CHR 0x0A] \<and> x = b' @ [CHR 0x0A])
         \<or> (CHR 0x0A \<notin> set (readlines c ! i) \<and> CHR 0x0A \<notin> set x \<and> x \<noteq> [])"
  shows "readlines (concat ((readlines c)[i := x])) = (readlines c)[i := x]"
  using assms
proof (induction i arbitrary: c)
  case 0
  from readlines_cases [of c] "0.prems"(1)
  consider "CHR 0x0A \<notin> set c" "c \<noteq> []" "readlines c = [c]"
    | b s where "CHR 0x0A \<notin> set b" "c = b @ CHR 0x0A # s"
        "readlines c = (b @ [CHR 0x0A]) # readlines s"
    by auto
  then show ?case
  proof cases
    case 1
    then have "CHR 0x0A \<notin> set x \<and> x \<noteq> []" using "0.prems"(2) by auto
    then show ?thesis using 1 readlines_last [of x] by simp
  next
    case 2
    then obtain b' where b': "CHR 0x0A \<notin> set b'" "x = b' @ [CHR 0x0A]"
      using "0.prems"(2) by auto
    have "concat ((readlines c)[0 := x]) = b' @ CHR 0x0A # s"
      using 2(3) b'(2) by (simp add: concat_readlines)
    then show ?thesis using readlines_line [OF b'(1), of s] 2(3) b'(2) by simp
  qed
next
  case (Suc j)
  from readlines_cases [of c] Suc.prems(1) obtain b s where
    c: "CHR 0x0A \<notin> set b" "readlines c = (b @ [CHR 0x0A]) # readlines s" by auto
  have j: "j < length (readlines s)" using Suc.prems(1) c(2) by simp
  have "readlines (concat ((readlines s)[j := x])) = (readlines s)[j := x]"
    using Suc.IH [OF j] Suc.prems(2) c(2) by simp
  moreover have "concat ((readlines c)[Suc j := x])
      = b @ CHR 0x0A # concat ((readlines s)[j := x])"
    using c(2) by simp
  ultimately show ?case using readlines_line [OF c(1)] c(2) by simp
qed

subsection \<open>The field patterns stay inside a line\<close>

lemma newline_is_space: "is_space CHR 0x0A"
  by (simp add: is_space_def)

lemma star_space_end:
  assumes "F [] = []"
  shows "concat (map F (ms (Star (Cls Space)) (u @ [CHR 0x0A])))
     = concat (map (\<lambda>t. F (t @ [CHR 0x0A])) (ms (Star (Cls Space)) u))"
  by (induction u) (simp_all add: star_cls_Nil star_cls_Cons newline_is_space assms)

lemma field_rx_end:
  assumes "CHR 0x0A \<notin> set name"
  shows "ms (field_rx name ns) (u @ [CHR 0x0A])
     = map (\<lambda>t. t @ [CHR 0x0A]) (ms (field_rx name ns) u)"
proof -
  define T where "T = Seq (if ns then Seq (Opt (Lit ''std::time::'')) (Lit ''SystemTime::now()'')
             else Lit ''SystemTime::now()'') (Opt (Lit '',''))"
  have lt: "lits_only T" by (simp add: T_def)
  have t0: "ms T [] = []" by (simp add: T_def)
  have t: "ms T (t @ [CHR 0x0A]) = map (\<lambda>t. t @ [CHR 0x0A]) (ms T t)" for t
    using ms_lits_line [OF lt, of t "[]"] by simp
  have s: "ms (Seq (Star (Cls Space)) T) (t @ [CHR 0x0A])
      = map (\<lambda>t. t @ [CHR 0x0A]) (ms (Seq (Star (Cls Space)) T) t)" for t
  proof -
    have "ms (Seq (Star (Cls Space)) T) (t @ [CHR 0x0A])
        = concat (map (\<lambda>t. ms T (t @ [CHR 0x0A])) (ms (Star (Cls Space)) t))"
      using star_space_end [of "ms T" t] t0 by simp
    then show ?thesis by (simp add: t map_concat comp_def)
  qed
  have l: "ms (Lit (name @ '':'')) (u @ [CHR 0x0A])
      = map (\<lambda>t. t @ [CHR 0x0A]) (ms (Lit (name @ '':'')) u)"
    using ms_lits_line [of "Lit (name @ '':'')" u "[]"] assms by simp
  define S where "S = Seq (Star (Cls Space)) T"
  have s': "ms S (t @ [CHR 0x0A]) = map (\<lambda>t. t @ [CHR 0x0A]) (ms S t)" for t
    unfolding S_def by (rule s)
  have "ms (Seq (Lit (name @ '':'')) S) (u @ [CHR 0x0A])
      = map (\<lambda>t. t @ [CHR 0x0A]) (ms (Seq (Lit (name @ '':'')) S) u)"
    unfolding ms.simps(3) l by (simp add: s' map_concat comp_def del: ms.simps)
  then have "ms (Seq (Lit (name @ '':'')) (Seq (Star (Cls Space)) T)) (u @ [CHR 0x0A])
      = map (\<lambda>t. t @ [CHR 0x0A]) (ms (Seq (Lit (name @ '':'')) (Seq (Star (Cls Space)) T)) u)"
    unfolding S_def .
  then show ?thesis by (simp add: field_rx_def T_def)
qed

lemma field_rx_first:
  assumes "CHR 0x0A \<notin> set name" and "t \<in> set (ms (field_rx name ns) s)"
  shows "length t < length s \<and> s \<noteq> [] \<and> hd s \<noteq> CHR 0x0A"
proof -
  have "length t < length s \<and> prefix (name @ '':'') s"
    using assms(2) unfolding field_rx_def by (rule ms_Lit_first [rotated]) simp
  then obtain rest where "length t < length s" "s = (name @ '':'') @ rest"
    by (auto simp: prefix_def)
  then show ?thesis using assms(1) by (cases name) auto
qed

lemma re_sub_nonempty: "s \<noteq> [] \<Longrightarrow> R \<noteq> [] \<Longrightarrow> re_sub r (\<lambda>m. R) s \<noteq> []"
  by (cases s) (auto split: list.splits)

lemma field_sub_line:
  assumes "CHR 0x0A \<notin> set name" and "CHR 0x0A \<notin> set R" and "R \<noteq> []"
  shows "CHR 0x0A \<notin> set b \<Longrightarrow>
      \<exists>b'. CHR 0x0A \<notin> set b' \<and> re_sub (field_rx name ns) (\<lambda>m. R) (b @ [CHR 0x0A]) = b' @ [CHR 0x0A]"
    and "CHR 0x0A \<notin> set l \<Longrightarrow> l \<noteq> [] \<Longrightarrow>
      CHR 0x0A \<notin> set (re_sub (field_rx name ns) (\<lambda>m. R) l)
      \<and> re_sub (field_rx name ns) (\<lambda>m. R) l \<noteq> []"
proof -
  assume b: "CHR 0x0A \<notin> set b"
  have e: "re_sub (field_rx name ns) (\<lambda>m. R) [] = []"
    using field_rx_first [OF assms(1), of _ ns "[]"]
    by (cases "ms (field_rx name ns) []") auto
  have "re_sub (field_rx name ns) (\<lambda>m. R) (b @ CHR 0x0A # [])
      = re_sub (field_rx name ns) (\<lambda>m. R) b @ CHR 0x0A # re_sub (field_rx name ns) (\<lambda>m. R) []"
    using field_rx_end [OF assms(1)] field_rx_first [OF assms(1)]
    by (intro re_sub_line) auto
  then have "re_sub (field_rx name ns) (\<lambda>m. R) (b @ [CHR 0x0A])
      = re_sub (field_rx name ns) (\<lambda>m. R) b @ [CHR 0x0A]"
    using e by simp
  moreover have "CHR 0x0A \<notin> set (re_sub (field_rx name ns) (\<lambda>m. R) b)"
    using b assms(2) by (rule re_sub_keeps_out)
  ultimately show "\<exists>b'. CHR 0x0A \<notin> set b'
      \<and> re_sub (field_rx name ns) (\<lambda>m. R) (b @ [CHR 0x0A]) = b' @ [CHR 0x0A]"
    by blast
next
  assume "CHR 0x0A \<notin> set l" "l \<noteq> []"
  then show "CHR 0x0A \<notin> set (re_sub (field_rx name ns) (\<lambda>m. R) l)
      \<and> re_sub (field_rx name ns) (\<lambda>m. R) l \<noteq> []"
    using re_sub_keeps_out [of "CHR 0x0A" l R] re_sub_nonempty [of l R] assms by simp
qed

lemma struct_fixes_fields:
  "struct_fixes = map (\<lambda>(n, b). (field_rx n b, n @ '': current_timestamp,''))
     [(''created_at'', False), (''timestamp'', True), (''last_activity'', True),
      (''started_at'', True), (''generated_at'', True), (''recorded_at'', True),
      (''exported_at'', True), (''executed_at'', True), (''connected_at'', True)]"
  by (simp add: struct_fixes_def)

lemma apply_fixes_fields_line:
  assumes "\<forall>(n, b) \<in> set ns. CHR 0x0A \<notin> set n"
    and "apply_fixes (map (\<lambda>(n, b). (field_rx n b, n @ '': current_timestamp,'')) ns) l = Some x"
  shows "(\<forall>b. CHR 0x0A \<notin> set b \<longrightarrow> l = b @ [CHR 0x0A] \<longrightarrow>
            (\<exists>b'. CHR 0x0A \<notin> set b' \<and> x = b' @ [CHR 0x0A]))
     \<and> (CHR 0x0A \<notin> set l \<and> l \<noteq> [] \<longrightarrow> CHR 0x0A \<notin> set x \<and> x \<noteq> [])"
  using assms
proof (induction ns)
  case Nil
  then show ?case by simp
next
  case (Cons a ns)
  obtain n b where a: "a = (n, b)" by (cases a)
  have n: "CHR 0x0A \<notin> set n" using Cons.prems(1) a by simp
  show ?case
  proof (cases "re_found (field_rx n b) l")
    case True
    then have x: "x = re_sub (field_rx n b) (\<lambda>m. n @ '': current_timestamp,'') l"
      using Cons.prems(2) a by simp
    have r: "CHR 0x0A \<notin> set (n @ '': current_timestamp,'')" "n @ '': current_timestamp,'' \<noteq> []"
      using n by simp_all
    show ?thesis
      unfolding x using field_sub_line [OF n r] by blast
  next
    case False
    then show ?thesis using Cons a by simp
  qed
qed

lemma struct_fixes_line:
  assumes "apply_fixes struct_fixes l = Some x"
  shows "(\<forall>b. CHR 0x0A \<notin> set b \<longrightarrow> l = b @ [CHR 0x0A] \<longrightarrow>
            (\<exists>b'. CHR 0x0A \<notin> set b' \<and> x = b' @ [CHR 0x0A]))
     \<and> (CHR 0x0A \<notin> set l \<and> l \<noteq> [] \<longrightarrow> CHR 0x0A \<notin> set x \<and> x \<noteq> [])"
  by (rule apply_fixes_fields_line [OF _ assms [unfolded struct_fixes_fields]]) simp

text \<open>Replacing a line by what the struct-field patterns make of it keeps the lines.\<close>

lemma struct_fixes_keep_lines:
  assumes "i < length (readlines c)"
    and "apply_fixes struct_fixes (readlines c ! i) = Some x"
  shows "readlines (concat ((readlines c)[i := x])) = (readlines c)[i := x]"
proof (rule readlines_update [OF assms(1)])
  from readlines_nth_shape [OF assms(1)] struct_fixes_line [OF assms(2)]
  show "(\<exists>b b'. CHR 0x0A \<notin> set b \<and> CHR 0x0A \<notin> set b'
            \<and> readlines c ! i = b @ [CHR 0x0A] \<and> x = b' @ [CHR 0x0A])
         \<or> (CHR 0x0A \<notin> set (readlines c ! i) \<and> CHR 0x0A \<notin> set x \<and> x \<noteq> [])"
    by blast
qed




section \<open>Facts about the rewriters and the run\<close>

subsection \<open>The buckets\<close>

lemma categorize_loop_filter:
  "categorize_loop matches categories c =
     categories c @ filter (\<lambda>(p, n, l). categorize_line l = c) matches"
  by (induction matches arbitrary: categories) auto

lemma categorize_usage_filter:
  "categorize_usage matches c = filter (\<lambda>(p, n, l). categorize_line l = c) matches"
  by (simp add: categorize_usage_def categorize_loop_filter)

lemma in_bucket_iff:
  "(p, n, l) \<in> set (categorize_usage matches c) \<longleftrightarrow>
     (p, n, l) \<in> set matches \<and> categorize_line l = c"
  by (auto simp: categorize_usage_filter)

subsection \<open>One occurrence at a time\<close>

lemma fix_timestamp_conversions_Cons:
  "fix_timestamp_conversions (m # rest) st =
     fix_timestamp_conversions rest (fix_timestamp_conversions [m] st)"
  by (cases m) simp

lemma fix_struct_fields_Cons:
  "fix_struct_fields (m # rest) st = fix_struct_fields rest (fix_struct_fields [m] st)"
  by (cases m) simp

lemma fix_direct_assignments_Cons:
  "fix_direct_assignments (m # rest) st =
     fix_direct_assignments rest (fix_direct_assignments [m] st)"
  by (cases m) simp

lemma timestamp_step_other:
  "q \<noteq> p \<Longrightarrow> read_file (fix_timestamp_conversions [(p, n, l)] st) q = read_file st q"
  by (auto simp: read_write_file Let_def split: option.splits)

lemma timestamp_step_not_cli:
  "\<not> contains ''cli'' p \<Longrightarrow> fix_timestamp_conversions [(p, n, l)] st = st"
  by (auto simp: timestamp_content_def Let_def split: option.splits)

lemma timestamp_frame:
  "\<not> contains ''cli'' q \<Longrightarrow>
     read_file (fix_timestamp_conversions matches st) q = read_file st q
     \<and> (\<forall>e \<in> set (writes (fix_timestamp_conversions matches st)).
           fst e = q \<longrightarrow> e \<in> set (writes st))"
proof (induction matches arbitrary: st)
  case Nil
  then show ?case by simp
next
  case (Cons m rest)
  obtain p n l where m: "m = (p, n, l)" by (cases m)
  let ?st1 = "fix_timestamp_conversions [m] st"
  have step: "read_file ?st1 q = read_file st q
     \<and> (\<forall>e \<in> set (writes ?st1). fst e = q \<longrightarrow> e \<in> set (writes st))"
  proof (cases "p = q")
    case True
    then show ?thesis using Cons.prems m timestamp_step_not_cli by simp
  next
    case False
    then show ?thesis unfolding m
      by (auto simp: read_write_file writes_write_file Let_def split: option.splits)
  qed
  show ?case
    using Cons.IH [OF Cons.prems, of ?st1] step
    by (subst fix_timestamp_conversions_Cons, subst (2) fix_timestamp_conversions_Cons) auto
qed

lemma struct_step_other:
  "q \<noteq> p \<Longrightarrow> read_file (fix_struct_fields [(p, n, l)] st) q = read_file st q"
  by (auto simp: read_write_file Let_def split: option.splits)

lemma struct_frame:
  "q \<notin> fst ` set matches \<Longrightarrow> read_file (fix_struct_fields matches st) q = read_file st q"
proof (induction matches arbitrary: st)
  case Nil
  then show ?case by simp
next
  case (Cons m rest)
  obtain p n l where m: "m = (p, n, l)" by (cases m)
  have "q \<noteq> p" using Cons.prems m by auto
  then have "read_file (fix_struct_fields [m] st) q = read_file st q"
    unfolding m by (rule struct_step_other)
  moreover have "q \<notin> fst ` set rest" using Cons.prems by auto
  ultimately show ?case
    using Cons.IH by (subst fix_struct_fields_Cons) simp
qed

lemma concat_list_update:
  "i < length ls \<Longrightarrow>
     concat (ls[i := x]) = concat (take i ls) @ x @ concat (drop (Suc i) ls)"
  by (simp add: upd_conv_take_nth_drop)

lemma concat_nth_split:
  "i < length ls \<Longrightarrow> concat ls = concat (take i ls) @ ls ! i @ concat (drop (Suc i) ls)"
  by (metis concat_list_update list_update_id)

lemma line_index_less: "line_index n ls = Some i \<Longrightarrow> i < length ls"
  by (auto simp: line_index_def split: if_splits)

lemma line_index_pos: "0 < n \<Longrightarrow> line_index n ls = Some i \<Longrightarrow> i = n - 1"
  by (auto simp: line_index_def split: if_splits)

lemma struct_step_same:
  assumes "read_text st p = Some content"
  shows "fix_struct_fields [(p, n, l)] st = st
     \<or> (\<exists>i new_line. line_index n (readlines content) = Some i
           \<and> apply_fixes struct_fixes (readlines content ! i) = Some new_line
           \<and> read_file (fix_struct_fields [(p, n, l)] st) p
               = Some (concat ((readlines content)[i := new_line])))"
  using assms by (auto simp: read_write_file Let_def split: option.splits)

lemma rglob_rs_fixes [simp]: "rglob_rs root (st\<lparr>fixes_applied := x\<rparr>) = rglob_rs root st"
  by (simp add: rglob_rs_def)

lemma read_file_fixes [simp]: "read_file (st\<lparr>fixes_applied := x\<rparr>) p = read_file st p"
  by (simp add: read_file_def)

lemma read_text_fixes [simp]: "read_text (st\<lparr>fixes_applied := x\<rparr>) p = read_text st p"
  by (simp add: read_text_def)

lemma find_systemtime_usage_fixes [simp]:
  "find_systemtime_usage root (st\<lparr>fixes_applied := x\<rparr>) = find_systemtime_usage root st"
  by (simp add: find_systemtime_usage_def)

lemma no_files_no_occurrences:
  "rglob_rs root st = [] \<Longrightarrow> find_systemtime_usage root st = []"
  by (simp add: find_systemtime_usage_def)

lemma run_fixes_no_occurrences:
  "find_systemtime_usage root st = [] \<Longrightarrow> run_fixes root st = st"
  by (simp add: run_fixes_def)

lemma add_helper_no_import: "\<not> contains ''use '' content \<Longrightarrow> add_helper content = content"
  using rfind_None_iff [of "''use ''" content] by (simp add: add_helper_def)

subsection \<open>The logs only grow\<close>

lemma timestamp_logs:
  "\<exists>ws fs. writes (fix_timestamp_conversions matches st) = writes st @ ws
     \<and> fixes_applied (fix_timestamp_conversions matches st) = fixes_applied st @ fs
     \<and> Created_time_utils_module \<notin> set fs"
proof (induction matches arbitrary: st)
  case Nil
  then show ?case by simp
next
  case (Cons m rest)
  obtain p n l where m: "m = (p, n, l)" by (cases m)
  let ?st1 = "fix_timestamp_conversions [m] st"
  have "\<exists>ws fs. writes ?st1 = writes st @ ws \<and> fixes_applied ?st1 = fixes_applied st @ fs
     \<and> Created_time_utils_module \<notin> set fs"
    unfolding m
    by (auto simp: writes_write_file fixes_append_fix Let_def split: option.splits)
  then obtain ws fs where 1: "writes ?st1 = writes st @ ws"
     "fixes_applied ?st1 = fixes_applied st @ fs" "Created_time_utils_module \<notin> set fs"
    by blast
  from Cons.IH [of ?st1] obtain ws' fs' where 2:
     "writes (fix_timestamp_conversions rest ?st1) = writes ?st1 @ ws'"
     "fixes_applied (fix_timestamp_conversions rest ?st1) = fixes_applied ?st1 @ fs'"
     "Created_time_utils_module \<notin> set fs'"
    by blast
  have "writes (fix_timestamp_conversions (m # rest) st) = writes st @ (ws @ ws')"
    "fixes_applied (fix_timestamp_conversions (m # rest) st) = fixes_applied st @ (fs @ fs')"
    "Created_time_utils_module \<notin> set (fs @ fs')"
    using 1 2 by (simp_all add: fix_timestamp_conversions_Cons [of m rest])
  then show ?case by blast
qed

lemma struct_logs:
  "\<exists>ws fs. writes (fix_struct_fields matches st) = writes st @ ws
     \<and> fixes_applied (fix_struct_fields matches st) = fixes_applied st @ fs
     \<and> Created_time_utils_module \<notin> set fs"
proof (induction matches arbitrary: st)
  case Nil
  then show ?case by simp
next
  case (Cons m rest)
  obtain p n l where m: "m = (p, n, l)" by (cases m)
  let ?st1 = "fix_struct_fields [m] st"
  have "\<exists>ws fs. writes ?st1 = writes st @ ws \<and> fixes_applied ?st1 = fixes_applied st @ fs
     \<and> Created_time_utils_module \<notin> set fs"
    unfolding m
    by (auto simp: writes_write_file fixes_append_fix Let_def split: option.splits)
  then obtain ws fs where 1: "writes ?st1 = writes st @ ws"
     "fixes_applied ?st1 = fixes_applied st @ fs" "Created_time_utils_module \<notin> set fs"
    by blast
  from Cons.IH [of ?st1] obtain ws' fs' where 2:
     "writes (fix_struct_fields rest ?st1) = writes ?st1 @ ws'"
     "fixes_applied (fix_struct_fields rest ?st1) = fixes_applied ?st1 @ fs'"
     "Created_time_utils_module \<notin> set fs'"
    by blast
  have "writes (fix_struct_fields (m # rest) st) = writes st @ (ws @ ws')"
    "fixes_applied (fix_struct_fields (m # rest) st) = fixes_applied st @ (fs @ fs')"
    "Created_time_utils_module \<notin> set (fs @ fs')"
    using 1 2 by (simp_all add: fix_struct_fields_Cons [of m rest])
  then show ?case by blast
qed

lemma direct_logs:
  "\<exists>ws fs. writes (fix_direct_assignments matches st) = writes st @ ws
     \<and> fixes_applied (fix_direct_assignments matches st) = fixes_applied st @ fs
     \<and> Created_time_utils_module \<notin> set fs"
proof (induction matches arbitrary: st)
  case Nil
  then show ?case by simp
next
  case (Cons m rest)
  obtain p n l where m: "m = (p, n, l)" by (cases m)
  let ?st1 = "fix_direct_assignments [m] st"
  have "\<exists>ws fs. writes ?st1 = writes st @ ws \<and> fixes_applied ?st1 = fixes_applied st @ fs
     \<and> Created_time_utils_module \<notin> set fs"
    unfolding m
    by (auto simp: writes_write_file fixes_append_fix Let_def split: option.splits)
  then obtain ws fs where 1: "writes ?st1 = writes st @ ws"
     "fixes_applied ?st1 = fixes_applied st @ fs" "Created_time_utils_module \<notin> set fs"
    by blast
  from Cons.IH [of ?st1] obtain ws' fs' where 2:
     "writes (fix_direct_assignments rest ?st1) = writes ?st1 @ ws'"
     "fixes_applied (fix_direct_assignments rest ?st1) = fixes_applied ?st1 @ fs'"
     "Created_time_utils_module \<notin> set fs'"
    by blast
  have "writes (fix_direct_assignments (m # rest) st) = writes st @ (ws @ ws')"
    "fixes_applied (fix_direct_assignments (m # rest) st) = fixes_applied st @ (fs @ fs')"
    "Created_time_utils_module \<notin> set (fs @ fs')"
    using 1 2 by (simp_all add: fix_direct_assignments_Cons [of m rest])
  then show ?case by blast
qed

text \<open>The three rewriters in the order of \<^verbatim>\<open>run_fixes\<close>.\<close>

lemma rewriters_logs:
  "\<exists>ws fs.
     writes (fix_direct_assignments ds (fix_struct_fields ss (fix_timestamp_conversions ts st)))
       = writes st @ ws
     \<and> fixes_applied
         (fix_direct_assignments ds (fix_struct_fields ss (fix_timestamp_conversions ts st)))
       = fixes_applied st @ fs
     \<and> Created_time_utils_module \<notin> set fs"
proof -
  let ?a = "fix_timestamp_conversions ts st"
  let ?b = "fix_struct_fields ss ?a"
  obtain w1 f1 where 1: "writes ?a = writes st @ w1" "fixes_applied ?a = fixes_applied st @ f1"
    "Created_time_utils_module \<notin> set f1" using timestamp_logs by blast
  obtain w2 f2 where 2: "writes ?b = writes ?a @ w2" "fixes_applied ?b = fixes_applied ?a @ f2"
    "Created_time_utils_module \<notin> set f2" using struct_logs by blast
  obtain w3 f3 where 3: "writes (fix_direct_assignments ds ?b) = writes ?b @ w3"
    "fixes_applied (fix_direct_assignments ds ?b) = fixes_applied ?b @ f3"
    "Created_time_utils_module \<notin> set f3" using direct_logs by blast
  have "writes (fix_direct_assignments ds ?b) = writes st @ (w1 @ w2 @ w3)"
    "fixes_applied (fix_direct_assignments ds ?b) = fixes_applied st @ (f1 @ f2 @ f3)"
    "Created_time_utils_module \<notin> set (f1 @ f2 @ f3)"
    using 1 2 3 by simp_all
  then show ?thesis by blast
qed

lemma create_helper_logs:
  assumes "utils_dir root \<in> set (dirs st)" and "utils_file root \<notin> set (dirs st)"
  shows "\<exists>ws fs. writes (create_time_helper_functions root st)
           = writes st @ (utils_file root, read_file st (utils_file root), utils_content) # ws
     \<and> fixes_applied (create_time_helper_functions root st) = fixes_applied st @ fs
     \<and> (fs = [] \<or> fs = [Created_time_utils_module])
     \<and> read_file (create_time_helper_functions root st) (utils_file root) = Some utils_content"
proof -
  have ne: "lib_file root \<noteq> utils_file root"
    by (simp add: lib_file_def utils_file_def)
  show ?thesis using assms ne
    by (auto simp: create_time_helper_functions_def Let_def writes_write_file fixes_append_fix
          read_write_file split: option.splits)
qed

subsection \<open>Writes that change the content\<close>

text \<open>
  A text without carriage returns that differs from the text read differs from the text on
  disk.
\<close>

lemma write_differs:
  assumes "read_text st p = Some c" and "CHR 0x0D \<notin> set new" and "new \<noteq> c"
  shows "read_file st p \<noteq> Some new"
proof
  assume "read_file st p = Some new"
  then have "read_text st p = Some new" using assms(2) by (rule read_text_plain)
  then show False using assms(1,3) by simp
qed

lemma line_no_cr: "CHR 0x0D \<notin> set c \<Longrightarrow> i < length (readlines c) \<Longrightarrow> CHR 0x0D \<notin> set (readlines c ! i)"
proof -
  assume c: "CHR 0x0D \<notin> set c" and i: "i < length (readlines c)"
  have "set (readlines c ! i) \<subseteq> set (concat (readlines c))"
    using nth_mem [OF i] by auto
  then show ?thesis using c by (auto simp: concat_readlines)
qed

lemma update_no_cr:
  assumes "CHR 0x0D \<notin> set c" and "CHR 0x0D \<notin> set x"
  shows "CHR 0x0D \<notin> set (concat ((readlines c)[i := x]))"
proof -
  have "set (concat ((readlines c)[i := x])) \<subseteq> set (concat (readlines c)) \<union> set x"
    using set_update_subset_insert [of "readlines c" i x] by auto
  then show ?thesis using assms by (auto simp: concat_readlines)
qed

lemma insert_no_cr:
  assumes "CHR 0x0D \<notin> set c" and "CHR 0x0D \<notin> set x"
  shows "CHR 0x0D \<notin> set (concat (take i (readlines c) @ [x] @ drop i (readlines c)))"
proof -
  have "concat (take i (readlines c) @ [x] @ drop i (readlines c))
      = concat (take i (readlines c)) @ x @ concat (drop i (readlines c))"
    by simp
  moreover have "set (concat (take i (readlines c))) \<subseteq> set (concat (readlines c))"
    "set (concat (drop i (readlines c))) \<subseteq> set (concat (readlines c))"
    by (auto dest: in_set_takeD in_set_dropD)
  ultimately show ?thesis using assms by (auto simp: concat_readlines)
qed

lemma timestamp_writes_real:
  "\<forall>e \<in> set (writes (fix_timestamp_conversions matches st)).
     e \<in> set (writes st) \<or> fst (snd e) \<noteq> Some (snd (snd e))"
proof (induction matches arbitrary: st)
  case Nil
  then show ?case by simp
next
  case (Cons m rest)
  obtain p n l where m: "m = (p, n, l)" by (cases m)
  have "read_file st p \<noteq> Some (timestamp_content p c)"
    if "read_text st p = Some c" "timestamp_content p c \<noteq> c" for c
    using that(1) timestamp_content_no_cr [OF read_text_no_cr [OF that(1)]] that(2)
    by (rule write_differs)
  then have "\<forall>e \<in> set (writes (fix_timestamp_conversions [m] st)).
     e \<in> set (writes st) \<or> fst (snd e) \<noteq> Some (snd (snd e))"
    unfolding m by (auto simp: writes_write_file Let_def split: option.splits)
  then show ?case
    using Cons.IH [of "fix_timestamp_conversions [m] st"]
    by (subst fix_timestamp_conversions_Cons) blast
qed

lemma concat_update_differs:
  assumes "i < length ls" and "x \<noteq> ls ! i"
  shows "concat (ls[i := x]) \<noteq> concat ls"
proof
  assume "concat (ls[i := x]) = concat ls"
  then have "concat (take i ls) @ x @ concat (drop (Suc i) ls)
      = concat (take i ls) @ ls ! i @ concat (drop (Suc i) ls)"
    using concat_list_update [OF assms(1), of x] concat_nth_split [OF assms(1)] by simp
  then show False using assms(2) by simp
qed

lemma struct_writes_real:
  "\<forall>e \<in> set (writes (fix_struct_fields matches st)).
     e \<in> set (writes st) \<or> fst (snd e) \<noteq> Some (snd (snd e))"
proof (induction matches arbitrary: st)
  case Nil
  then show ?case by simp
next
  case (Cons m rest)
  obtain p n l where m: "m = (p, n, l)" by (cases m)
  have "read_file st p \<noteq> Some (concat ((readlines c)[i := x]))"
    if "read_text st p = Some c" "line_index n (readlines c) = Some i"
      "apply_fixes struct_fixes (readlines c ! i) = Some x"
    for c i x
  proof (rule write_differs [OF that(1)])
    have c: "CHR 0x0D \<notin> set c" using that(1) by (rule read_text_no_cr)
    have "CHR 0x0D \<notin> set x"
      using that(3) line_no_cr [OF c line_index_less [OF that(2)]] by (rule struct_fixes_no_cr)
    with c show "CHR 0x0D \<notin> set (concat ((readlines c)[i := x]))" by (rule update_no_cr)
    show "concat ((readlines c)[i := x]) \<noteq> c"
      using concat_update_differs [OF line_index_less [OF that(2)] struct_fixes_change [OF that(3)]]
      by (simp add: concat_readlines)
  qed
  then have "\<forall>e \<in> set (writes (fix_struct_fields [m] st)).
     e \<in> set (writes st) \<or> fst (snd e) \<noteq> Some (snd (snd e))"
    unfolding m by (auto simp: writes_write_file Let_def split: option.splits)
  then show ?case
    using Cons.IH [of "fix_struct_fields [m] st"]
    by (subst fix_struct_fields_Cons) blast
qed

lemma insert_line_differs: "concat (take i ls @ [allow_line l] @ drop i ls) \<noteq> concat ls"
proof -
  have "concat ls = concat (take i ls) @ concat (drop i ls)"
    by (metis append_take_drop_id concat_append)
  moreover have "allow_line l \<noteq> []" by (simp add: allow_line_def)
  ultimately show ?thesis by simp
qed

lemma direct_writes_real:
  "\<forall>e \<in> set (writes (fix_direct_assignments matches st)).
     e \<in> set (writes st) \<or> fst (snd e) \<noteq> Some (snd (snd e))"
proof (induction matches arbitrary: st)
  case Nil
  then show ?case by simp
next
  case (Cons m rest)
  obtain p n l where m: "m = (p, n, l)" by (cases m)
  have "read_file st p \<noteq> Some (concat (take i (readlines c) @ [allow_line x] @ drop i (readlines c)))"
    if "read_text st p = Some c" for c i x
  proof (rule write_differs [OF that])
    have c: "CHR 0x0D \<notin> set c" using that by (rule read_text_no_cr)
    then show "CHR 0x0D \<notin> set (concat (take i (readlines c) @ [allow_line x] @ drop i (readlines c)))"
      using allow_line_no_cr by (rule insert_no_cr)
    show "concat (take i (readlines c) @ [allow_line x] @ drop i (readlines c)) \<noteq> c"
      using insert_line_differs [of i "readlines c" x] by (simp add: concat_readlines)
  qed
  then have "\<forall>e \<in> set (writes (fix_direct_assignments [m] st)).
     e \<in> set (writes st) \<or> fst (snd e) \<noteq> Some (snd (snd e))"
    unfolding m
    by (auto simp: writes_write_file Let_def simp del: concat_append append.simps
          split: option.splits)
  then show ?case
    using Cons.IH [of "fix_direct_assignments [m] st"]
    by (subst fix_direct_assignments_Cons) blast
qed

lemma rewriters_writes_real:
  "\<forall>e \<in> set (writes (fix_direct_assignments ds
        (fix_struct_fields ss (fix_timestamp_conversions ts st)))).
     e \<in> set (writes st) \<or> fst (snd e) \<noteq> Some (snd (snd e))"
  using direct_writes_real [of ds "fix_struct_fields ss (fix_timestamp_conversions ts st)"]
    struct_writes_real [of ss "fix_timestamp_conversions ts st"]
    timestamp_writes_real [of ts st]
  by blast

lemma create_helper_writes:
  "\<forall>e \<in> set (writes (create_time_helper_functions root st)).
     e \<in> set (writes st)
     \<or> e = (utils_file root, read_file st (utils_file root), utils_content)
     \<or> (\<exists>c. e = (lib_file root, read_file st (lib_file root), register_module c)
            \<and> read_text st (lib_file root) = Some c
            \<and> \<not> contains ''pub mod time_utils;'' c)"
  using lib_not_utils [of root]
  by (auto simp: create_time_helper_functions_def Let_def writes_write_file read_write_file
        read_text_write_file split: option.splits)

lemma register_changes:
  "\<not> contains ''pub mod time_utils;'' c \<Longrightarrow> register_module c \<noteq> c"
  using register_present [of c] by auto

lemma register_module_no_cr:
  assumes "CHR 0x0D \<notin> set c"
  shows "CHR 0x0D \<notin> set (register_module c)"
proof (cases "re_search mods_rx c")
  case None
  then show ?thesis using assms by (simp add: register_module_def re_sub1_def)
next
  case (Some x)
  obtain b m a where x: "x = (b, m, a)" by (cases x)
  have "c = b @ m @ a" using re_search_Some [of mods_rx c b m a] Some x by simp
  then show ?thesis using assms Some x by (auto simp: register_module_def re_sub1_def)
qed

lemma register_write_differs:
  assumes "read_text st p = Some c" and "\<not> contains ''pub mod time_utils;'' c"
  shows "read_file st p \<noteq> Some (register_module c)"
  using assms(1) register_module_no_cr [OF read_text_no_cr [OF assms(1)]]
    register_changes [OF assms(2)]
  by (rule write_differs)



section \<open>Evaluation of the example inputs\<close>

lemma readlines_text_lines:
  "\<forall>l \<in> set ls. CHR 0x0A \<notin> set l \<Longrightarrow> readlines (text_lines ls) = map (\<lambda>l. l @ [CHR 0x0A]) ls"
proof (induction ls)
  case Nil
  then show ?case by (simp add: text_lines_def)
next
  case (Cons l ls)
  then have ih: "readlines (text_lines ls) = map (\<lambda>l. l @ [CHR 0x0A]) ls" by simp
  have "CHR 0x0A \<notin> set l" using Cons.prems by simp
  then have "readlines (l @ CHR 0x0A # s) = (l @ [CHR 0x0A]) # readlines s" for s
    by (induction l) auto
  then show ?case using ih by (simp add: text_lines_def)
qed

lemmas eval_defs = re_found_def systemtime_rx_def strip_def lstrip_def is_space_def is_word_def
  let_rx_def Plus_def field_rx_def ms.simps(5)

lemma utils_occurrences:
  "file_occurrences p utils_content =
     [(p, 13, ''SystemTime::now()''), (p, 24, ''SystemTime::now()''),
      (p, 35, ''SystemTime::now()'')]"
  unfolding file_occurrences_def utils_content_def
  by (subst readlines_text_lines) (simp_all add: enumerate_eq_zip upt_rec eval_defs)

lemma run_fixes_unfold:
  assumes "find_systemtime_usage root st = occs" and "occs \<noteq> []"
  shows "run_fixes root st =
     fix_direct_assignments (filter (\<lambda>(p, n, l). categorize_line l = DIRECT_ASSIGNMENT) occs)
       (fix_struct_fields (filter (\<lambda>(p, n, l). categorize_line l = STRUCT_FIELD) occs)
          (fix_timestamp_conversions
             (filter (\<lambda>(p, n, l). categorize_line l = TIMESTAMP_CONVERSION) occs)
             (create_time_helper_functions root st)))"
  using assms by (simp add: run_fixes_def Let_def categorize_usage_filter)

lemma categorize_let_now: "categorize_line ''let now = SystemTime::now();'' = DIRECT_ASSIGNMENT"
  by (simp add: categorize_line_def eval_defs)

lemma categorize_bare_call: "categorize_line ''SystemTime::now()'' = STRUCT_FIELD"
  by (simp add: categorize_line_def eval_defs)

lemma utils_lines:
  "readlines utils_content = map (\<lambda>l. l @ [CHR 0x0A])
    [''//! Time utility functions for the Aura codebase'',
     ''//!'',
     ''//! This module provides centralized time functions that can be easily'',
     ''//! replaced with injectable time sources for testing and deterministic execution.'',
     '''',
     ''use std::time::{SystemTime, UNIX_EPOCH};'',
     '''',
     ''/// Get current Unix timestamp in seconds'',
     ''/// '',
     ''/// TODO: Replace with injected time source in production'',
     ''pub fn current_unix_timestamp() -> u64 {'',
     ''    #[allow(clippy::disallowed_methods)]'',
     ''    SystemTime::now()'',
     ''        .duration_since(UNIX_EPOCH)'',
     ''        .unwrap_or_default()'',
     ''        .as_secs()'',
     ''}'',
     '''',
     ''/// Get current Unix timestamp in milliseconds'',
     ''/// '',
     ''/// TODO: Replace with injected time source in production  '',
     ''pub fn current_unix_timestamp_millis() -> u64 {'',
     ''    #[allow(clippy::disallowed_methods)]'',
     ''    SystemTime::now()'',
     ''        .duration_since(UNIX_EPOCH)'',
     ''        .unwrap_or_default()'',
     ''        .as_millis() as u64'',
     ''}'',
     '''',
     ''/// Get current SystemTime'',
     ''/// '',
     ''/// TODO: Replace with injected time source in production'',
     ''pub fn current_system_time() -> SystemTime {'',
     ''    #[allow(clippy::disallowed_methods)]'',
     ''    SystemTime::now()'',
     ''}'']"
  unfolding utils_content_def
  by (rule readlines_text_lines) simp

lemma utils_lines_bare:
  "line_index 13 (readlines utils_content) = Some 12"
  "line_index 24 (readlines utils_content) = Some 23"
  "line_index 35 (readlines utils_content) = Some 34"
  "readlines utils_content ! 12 = ''    SystemTime::now()\<newline>''"
  "readlines utils_content ! 23 = ''    SystemTime::now()\<newline>''"
  "readlines utils_content ! 34 = ''    SystemTime::now()\<newline>''"
  unfolding utils_lines
  by (simp_all add: line_index_def)

lemma bare_call_no_fix:
  "apply_fixes struct_fixes ''    SystemTime::now()\<newline>'' = None"
  by (simp add: struct_fixes_def eval_defs)

lemma utils_content_no_cr: "CHR 0x0D \<notin> set utils_content"
  unfolding utils_content_def by (rule text_lines_no_cr) simp

lemma universal_newlines_utils [simp]: "universal_newlines utils_content = utils_content"
  using utils_content_no_cr by (rule universal_newlines_id)

lemma universal_newlines_text_lines [simp]:
  "\<forall>l \<in> set ls. CHR 0x0D \<notin> set l \<Longrightarrow> universal_newlines (text_lines ls) = text_lines ls"
  by (rule universal_newlines_id [OF text_lines_no_cr])

section \<open>C1: the classifier\<close>

text \<open>
  C1. Every occurrence handed to \<^verbatim>\<open>categorize_usage\<close> lands in exactly one of the five
  buckets, and the bucket is the first in the order TIMESTAMP_CONVERSION, DIRECT_ASSIGNMENT,
  STRUCT_FIELD, FUNCTION_CALL, OTHER whose test the line passes. In particular a line with
  both \<^verbatim>\<open>duration_since\<close> and \<^verbatim>\<open>UNIX_EPOCH\<close> is a TIMESTAMP_CONVERSION, and not a
  STRUCT_FIELD, also when it contains a colon.
\<close>

theorem classification_first_match_wins:
  assumes "(file_path, line_num, line) \<in> set matches"
  shows "(\<exists>!c. (file_path, line_num, line) \<in> set (categorize_usage matches c))
    \<and> ((file_path, line_num, line) \<in> set (categorize_usage matches TIMESTAMP_CONVERSION) \<longleftrightarrow>
         contains ''duration_since'' line \<and> contains ''UNIX_EPOCH'' line)
    \<and> ((file_path, line_num, line) \<in> set (categorize_usage matches DIRECT_ASSIGNMENT) \<longleftrightarrow>
         \<not> (contains ''duration_since'' line \<and> contains ''UNIX_EPOCH'' line)
         \<and> re_found (let_rx []) line)
    \<and> ((file_path, line_num, line) \<in> set (categorize_usage matches STRUCT_FIELD) \<longleftrightarrow>
         \<not> (contains ''duration_since'' line \<and> contains ''UNIX_EPOCH'' line)
         \<and> \<not> re_found (let_rx []) line
         \<and> contains '':'' line \<and> contains ''SystemTime::now()'' line)
    \<and> ((file_path, line_num, line) \<in> set (categorize_usage matches FUNCTION_CALL) \<longleftrightarrow>
         \<not> (contains ''duration_since'' line \<and> contains ''UNIX_EPOCH'' line)
         \<and> \<not> re_found (let_rx []) line
         \<and> \<not> (contains '':'' line \<and> contains ''SystemTime::now()'' line)
         \<and> contains ''('' line \<and> contains ''SystemTime::now()'' line)
    \<and> ((file_path, line_num, line) \<in> set (categorize_usage matches OTHER) \<longleftrightarrow>
         \<not> (contains ''duration_since'' line \<and> contains ''UNIX_EPOCH'' line)
         \<and> \<not> re_found (let_rx []) line
         \<and> \<not> (contains '':'' line \<and> contains ''SystemTime::now()'' line)
         \<and> \<not> (contains ''('' line \<and> contains ''SystemTime::now()'' line))
    \<and> (contains ''duration_since'' line \<and> contains ''UNIX_EPOCH'' line \<and> contains '':'' line \<longrightarrow>
         (file_path, line_num, line) \<in> set (categorize_usage matches TIMESTAMP_CONVERSION)
         \<and> (file_path, line_num, line) \<notin> set (categorize_usage matches STRUCT_FIELD))"
proof -
  have ex1: "\<exists>!c. (file_path, line_num, line) \<in> set (categorize_usage matches c)"
    using assms by (auto simp: in_bucket_iff)
  have rest: "categorize_line line = TIMESTAMP_CONVERSION \<longleftrightarrow>
         contains ''duration_since'' line \<and> contains ''UNIX_EPOCH'' line"
     "categorize_line line = DIRECT_ASSIGNMENT \<longleftrightarrow>
         \<not> (contains ''duration_since'' line \<and> contains ''UNIX_EPOCH'' line)
         \<and> re_found (let_rx []) line"
     "categorize_line line = STRUCT_FIELD \<longleftrightarrow>
         \<not> (contains ''duration_since'' line \<and> contains ''UNIX_EPOCH'' line)
         \<and> \<not> re_found (let_rx []) line
         \<and> contains '':'' line \<and> contains ''SystemTime::now()'' line"
     "categorize_line line = FUNCTION_CALL \<longleftrightarrow>
         \<not> (contains ''duration_since'' line \<and> contains ''UNIX_EPOCH'' line)
         \<and> \<not> re_found (let_rx []) line
         \<and> \<not> (contains '':'' line \<and> contains ''SystemTime::now()'' line)
         \<and> contains ''('' line \<and> contains ''SystemTime::now()'' line"
     "categorize_line line = OTHER \<longleftrightarrow>
         \<not> (contains ''duration_since'' line \<and> contains ''UNIX_EPOCH'' line)
         \<and> \<not> re_found (let_rx []) line
         \<and> \<not> (contains '':'' line \<and> contains ''SystemTime::now()'' line)
         \<and> \<not> (contains ''('' line \<and> contains ''SystemTime::now()'' line)"
    unfolding categorize_line_def by auto
  show ?thesis
    using ex1 rest assms unfolding in_bucket_iff by blast
qed

lemma conv_line_tokens:
  "contains ''duration_since'' conv_line" "contains ''UNIX_EPOCH'' conv_line" "contains '':'' conv_line"
  by (simp_all add: conv_line_def)

text \<open>The theorem at a conversion line that contains a colon.\<close>

theorem classification_first_match_wins_witness:
  "(''a.rs'', 1, conv_line) \<in> set [(''a.rs'', 1, conv_line)]
   \<and> contains ''duration_since'' conv_line \<and> contains ''UNIX_EPOCH'' conv_line
   \<and> contains '':'' conv_line
   \<and> (''a.rs'', 1, conv_line) \<in> set (categorize_usage [(''a.rs'', 1, conv_line)] TIMESTAMP_CONVERSION)
   \<and> (''a.rs'', 1, conv_line) \<notin> set (categorize_usage [(''a.rs'', 1, conv_line)] STRUCT_FIELD)"
  using classification_first_match_wins [of "''a.rs''" 1 conv_line "[(''a.rs'', 1, conv_line)]"]
    conv_line_tokens
  by simp



section \<open>C2: a direct assignment in a test file, run twice\<close>

lemma tests_tree_run:
  "run_fixes ''proj'' tests_tree = tests_tree_fixed"
proof -
  have occ: "find_systemtime_usage ''proj'' tests_tree
      = [(''proj/tests/clock.rs'', 2, ''let now = SystemTime::now();'')]"
    unfolding find_systemtime_usage_def rglob_rs_def tests_tree_def read_file_def read_text_def
      file_occurrences_def
    by (simp add: readlines_text_lines enumerate_eq_zip eval_defs suffix_def)
  have helper: "create_time_helper_functions ''proj'' tests_tree =
      tests_tree\<lparr>files := files tests_tree @ [(''proj/crates/aura-types/src/time_utils.rs'', utils_content)],
        writes := [(''proj/crates/aura-types/src/time_utils.rs'', None, utils_content)],
        fixes_applied := [Created_time_utils_module]\<rparr>"
    by (simp add: create_time_helper_functions_def utils_dir_def utils_file_def lib_file_def
        tests_tree_def write_file_def read_file_def read_text_def append_fix_def Let_def)
  show ?thesis
    unfolding run_fixes_unfold [OF occ, simplified] helper
    by (simp add: categorize_let_now tests_tree_def tests_tree_fixed_def read_file_def read_text_def
        readlines_text_lines line_index_def eval_defs allow_line_def write_file_def append_fix_def
        name_of_def text_lines_def)
qed

lemma tests_tree_fixed_occurrences: "find_systemtime_usage ''proj'' tests_tree_fixed
      = [(''proj/tests/clock.rs'', 3, ''let now = SystemTime::now();''),
         (''proj/crates/aura-types/src/time_utils.rs'', 13, ''SystemTime::now()''),
         (''proj/crates/aura-types/src/time_utils.rs'', 24, ''SystemTime::now()''),
         (''proj/crates/aura-types/src/time_utils.rs'', 35, ''SystemTime::now()'')]"
    unfolding find_systemtime_usage_def rglob_rs_def tests_tree_fixed_def read_file_def read_text_def
    by (simp add: utils_occurrences suffix_def)
       (simp add: file_occurrences_def readlines_text_lines enumerate_eq_zip eval_defs)

lemma tests_tree_rerun:
  "read_file (run_fixes ''proj'' tests_tree_fixed) ''proj/tests/clock.rs'' =
     Some (text_lines [''fn stamp() {'', ''    #[allow(clippy::disallowed_methods)]'',
        ''    #[allow(clippy::disallowed_methods)]'', ''    let now = SystemTime::now();'', ''}''])"
proof -
  define st1 where "st1 = tests_tree_fixed\<lparr>
        writes := writes tests_tree_fixed @ [(''proj/crates/aura-types/src/time_utils.rs'', Some utils_content, utils_content)],
        fixes_applied := fixes_applied tests_tree_fixed @ [Created_time_utils_module]\<rparr>"
  have helper: "create_time_helper_functions ''proj'' tests_tree_fixed = st1"
    by (simp add: create_time_helper_functions_def utils_dir_def utils_file_def lib_file_def
        tests_tree_fixed_def write_file_def read_file_def read_text_def append_fix_def Let_def st1_def)
  have r: "read_text st1 ''proj/crates/aura-types/src/time_utils.rs'' = Some utils_content"
    by (simp add: read_file_def read_text_def tests_tree_fixed_def st1_def)
  have struct: "fix_struct_fields
       [(''proj/crates/aura-types/src/time_utils.rs'', 13, ''SystemTime::now()''),
         (''proj/crates/aura-types/src/time_utils.rs'', 24, ''SystemTime::now()''),
         (''proj/crates/aura-types/src/time_utils.rs'', 35, ''SystemTime::now()'')] st1 = st1"
    by (simp add: r utils_lines_bare bare_call_no_fix)
  have run: "run_fixes ''proj'' tests_tree_fixed =
     fix_direct_assignments [(''proj/tests/clock.rs'', 3, ''let now = SystemTime::now();'')] st1"
    by (subst run_fixes_unfold [OF tests_tree_fixed_occurrences])
       (simp_all add: helper categorize_let_now categorize_bare_call struct
          del: fix_struct_fields.simps fix_direct_assignments.simps)
  have r2: "read_text st1 ''proj/tests/clock.rs'' =
     Some (text_lines [''fn stamp() {'', ''    #[allow(clippy::disallowed_methods)]'',
                  ''    let now = SystemTime::now();'', ''}''])"
    by (simp add: read_file_def read_text_def tests_tree_fixed_def st1_def)
  show ?thesis
    unfolding run
    by (simp add: r2 read_write_file readlines_text_lines line_index_def eval_defs allow_line_def
        text_lines_def)
qed

text \<open>
  C2. In a file below \<^verbatim>\<open>tests/\<close> with the line \<^verbatim>\<open>let now = SystemTime::now();\<close>, the
  first run inserts the line \<^verbatim>\<open>#[allow(clippy::disallowed_methods)]\<close> above it, with the
  indentation of the line. The second run, on the tree the first one left, does not leave
  the file as it is: it inserts the same line once more.
\<close>

theorem direct_assignment_second_run:
  "read_file (run_fixes ''proj'' tests_tree) ''proj/tests/clock.rs'' =
     Some (text_lines [''fn stamp() {'', ''    #[allow(clippy::disallowed_methods)]'',
        ''    let now = SystemTime::now();'', ''}''])
   \<and> read_file (run_fixes ''proj'' (run_fixes ''proj'' tests_tree)) ''proj/tests/clock.rs'' =
     Some (text_lines [''fn stamp() {'', ''    #[allow(clippy::disallowed_methods)]'',
        ''    #[allow(clippy::disallowed_methods)]'', ''    let now = SystemTime::now();'', ''}''])"
proof -
  have "read_file tests_tree_fixed ''proj/tests/clock.rs'' =
     Some (text_lines [''fn stamp() {'', ''    #[allow(clippy::disallowed_methods)]'',
        ''    let now = SystemTime::now();'', ''}''])"
    by (simp add: tests_tree_fixed_def read_file_def)
  then show ?thesis
    by (simp only: tests_tree_run tests_tree_rerun simp_thms)
qed



section \<open>C4: the named struct fields\<close>

lemma fields_tree_occurrences:
  "find_systemtime_usage ''proj'' fields_tree =
     [(''proj/src/event.rs'', 2, ''created_at: SystemTime::now(),''),
      (''proj/src/event.rs'', 3, ''created_at: std::time::SystemTime::now(),''),
      (''proj/src/event.rs'', 4, ''timestamp: std::time::SystemTime::now(),'')]"
  unfolding find_systemtime_usage_def rglob_rs_def fields_tree_def read_file_def read_text_def
    file_occurrences_def
  by (simp add: readlines_text_lines enumerate_eq_zip eval_defs suffix_def)

lemma categorize_fields:
  "categorize_line ''created_at: SystemTime::now(),'' = STRUCT_FIELD"
  "categorize_line ''created_at: std::time::SystemTime::now(),'' = STRUCT_FIELD"
  "categorize_line ''timestamp: std::time::SystemTime::now(),'' = STRUCT_FIELD"
  by (simp_all add: categorize_line_def eval_defs)

lemma apply_fixes_fields:
  "apply_fixes struct_fixes ''    created_at: SystemTime::now(),\<newline>''
     = Some ''    created_at: current_timestamp,\<newline>''"
  "apply_fixes struct_fixes ''    created_at: std::time::SystemTime::now(),\<newline>'' = None"
  "apply_fixes struct_fixes ''    timestamp: std::time::SystemTime::now(),\<newline>''
     = Some ''    timestamp: current_timestamp,\<newline>''"
  by (simp_all add: struct_fixes_def eval_defs)

text \<open>
  C4. After one run the line \<^verbatim>\<open>created_at: SystemTime::now(),\<close> is
  \<^verbatim>\<open>created_at: current_timestamp,\<close>, and the namespaced
  \<^verbatim>\<open>timestamp: std::time::SystemTime::now(),\<close> is \<^verbatim>\<open>timestamp: current_timestamp,\<close>; the
  namespaced \<^verbatim>\<open>created_at: std::time::SystemTime::now(),\<close> is left as it was, since the
  pattern for \<^verbatim>\<open>created_at\<close> is the only one of the nine without the optional
  \<^verbatim>\<open>std::time::\<close>.
\<close>

theorem namespaced_created_at_not_rewritten:
  "read_file (run_fixes ''proj'' fields_tree) ''proj/src/event.rs'' =
     Some (text_lines [''Event {'',
        ''    created_at: current_timestamp,'',
        ''    created_at: std::time::SystemTime::now(),'',
        ''    timestamp: current_timestamp,'',
        ''}''])"
proof -
  define st1 where "st1 = create_time_helper_functions ''proj'' fields_tree"
  have r1: "read_text st1 ''proj/src/event.rs'' =
     Some (text_lines [''Event {'',
                  ''    created_at: SystemTime::now(),'',
                  ''    created_at: std::time::SystemTime::now(),'',
                  ''    timestamp: std::time::SystemTime::now(),'',
                  ''}''])"
    by (simp add: st1_def create_time_helper_functions_def utils_dir_def utils_file_def
        lib_file_def fields_tree_def write_file_def read_file_def read_text_def append_fix_def Let_def)
  have run: "run_fixes ''proj'' fields_tree =
     fix_struct_fields
       [(''proj/src/event.rs'', 2, ''created_at: SystemTime::now(),''),
        (''proj/src/event.rs'', 3, ''created_at: std::time::SystemTime::now(),''),
        (''proj/src/event.rs'', 4, ''timestamp: std::time::SystemTime::now(),'')] st1"
    by (subst run_fixes_unfold [OF fields_tree_occurrences])
       (simp_all add: categorize_fields st1_def
          del: fix_struct_fields.simps(2) fix_direct_assignments.simps(2))
  show ?thesis
    unfolding run
    by (simp add: r1 read_write_file read_text_write_file readlines_text_lines line_index_def apply_fixes_fields
        text_lines_def)
qed



section \<open>C7: the helper injector and the rewriters\<close>

lemma quiet_tree_occurrences: "find_systemtime_usage ''proj'' quiet_tree = []"
  unfolding find_systemtime_usage_def rglob_rs_def quiet_tree_def read_file_def read_text_def
    file_occurrences_def
  by (simp add: readlines_text_lines enumerate_eq_zip eval_defs suffix_def)

lemma tests_tree_occurrences:
  "find_systemtime_usage ''proj'' tests_tree
      = [(''proj/tests/clock.rs'', 2, ''let now = SystemTime::now();'')]"
  unfolding find_systemtime_usage_def rglob_rs_def tests_tree_def read_file_def read_text_def
    file_occurrences_def
  by (simp add: readlines_text_lines enumerate_eq_zip eval_defs suffix_def)

text \<open>
  C7, as the code has it. A run that finds no occurrence returns before the helper injector
  and leaves the state as it is. A run that finds an occurrence is the three rewriters
  applied, in their order, to the state that the helper injector leaves; when the directory
  of the helper module exists, the helper file holds the template when the rewriters
  start, its write is the first write of the run, and the run logs the creation of the
  module at most once.
\<close>

theorem helper_injector_first:
  "(find_systemtime_usage root st = [] \<longrightarrow> run_fixes root st = st)
   \<and> (find_systemtime_usage root st \<noteq> [] \<longrightarrow>
        run_fixes root st =
          fix_direct_assignments
            (categorize_usage (find_systemtime_usage root st) DIRECT_ASSIGNMENT)
            (fix_struct_fields
               (categorize_usage (find_systemtime_usage root st) STRUCT_FIELD)
               (fix_timestamp_conversions
                  (categorize_usage (find_systemtime_usage root st) TIMESTAMP_CONVERSION)
                  (create_time_helper_functions root st))))
   \<and> (find_systemtime_usage root st \<noteq> []
        \<and> utils_dir root \<in> set (dirs st) \<and> utils_file root \<notin> set (dirs st) \<longrightarrow>
        read_file (create_time_helper_functions root st) (utils_file root) = Some utils_content
        \<and> (\<exists>ws. writes (run_fixes root st)
              = writes st @ (utils_file root, read_file st (utils_file root), utils_content) # ws)
        \<and> (\<exists>fs. fixes_applied (run_fixes root st) = fixes_applied st @ fs
              \<and> length (filter (\<lambda>x. x = Created_time_utils_module) fs) \<le> 1))"
proof -
  have third: "read_file (create_time_helper_functions root st) (utils_file root) = Some utils_content
        \<and> (\<exists>ws. writes (run_fixes root st)
              = writes st @ (utils_file root, read_file st (utils_file root), utils_content) # ws)
        \<and> (\<exists>fs. fixes_applied (run_fixes root st) = fixes_applied st @ fs
              \<and> length (filter (\<lambda>x. x = Created_time_utils_module) fs) \<le> 1)"
    if occ: "find_systemtime_usage root st \<noteq> []"
      and d: "utils_dir root \<in> set (dirs st)" "utils_file root \<notin> set (dirs st)"
  proof -
    let ?c = "create_time_helper_functions root st"
    let ?cats = "categorize_usage (find_systemtime_usage root st)"
    from create_helper_logs [OF d] obtain ws fs where c:
      "writes ?c = writes st @ (utils_file root, read_file st (utils_file root), utils_content) # ws"
      "fixes_applied ?c = fixes_applied st @ fs"
      "fs = [] \<or> fs = [Created_time_utils_module]"
      "read_file ?c (utils_file root) = Some utils_content"
      by blast
    from rewriters_logs [of "?cats DIRECT_ASSIGNMENT" "?cats STRUCT_FIELD"
        "?cats TIMESTAMP_CONVERSION" ?c]
    obtain ws' fs' where r:
      "writes (run_fixes root st) = writes ?c @ ws'"
      "fixes_applied (run_fixes root st) = fixes_applied ?c @ fs'"
      "Created_time_utils_module \<notin> set fs'"
      using occ by (auto simp: run_fixes_def Let_def)
    have w: "writes (run_fixes root st)
       = writes st @ (utils_file root, read_file st (utils_file root), utils_content) # (ws @ ws')"
      using c r by simp
    have f: "fixes_applied (run_fixes root st) = fixes_applied st @ (fs @ fs')"
      using c r by simp
    have "filter (\<lambda>x. x = Created_time_utils_module) fs' = []"
      using r(3) by (induction fs') auto
    then have n: "length (filter (\<lambda>x. x = Created_time_utils_module) (fs @ fs')) \<le> 1"
      using c(3) by auto
    show ?thesis using c(4) w f n by blast
  qed
  show ?thesis
    using third by (auto simp: run_fixes_def Let_def)
qed

text \<open>The run on a tree without occurrences creates no helper module, though its directory
  exists.\<close>

theorem helper_injector_first_counterexample:
  "utils_dir ''proj'' \<in> set (dirs quiet_tree)
   \<and> run_fixes ''proj'' quiet_tree = quiet_tree
   \<and> read_file (run_fixes ''proj'' quiet_tree) (utils_file ''proj'') = None
   \<and> writes (run_fixes ''proj'' quiet_tree) = []"
proof -
  have "run_fixes ''proj'' quiet_tree = quiet_tree"
    using quiet_tree_occurrences by (rule run_fixes_no_occurrences)
  moreover have "utils_dir ''proj'' \<in> set (dirs quiet_tree)"
    "read_file quiet_tree (utils_file ''proj'') = None" "writes quiet_tree = []"
    by (simp_all add: quiet_tree_def utils_dir_def utils_file_def read_file_def)
  ultimately show ?thesis by simp
qed

theorem helper_injector_first_witness:
  "find_systemtime_usage ''proj'' quiet_tree = []
   \<and> run_fixes ''proj'' quiet_tree = quiet_tree
   \<and> find_systemtime_usage ''proj'' tests_tree \<noteq> []
   \<and> utils_dir ''proj'' \<in> set (dirs tests_tree)
   \<and> utils_file ''proj'' \<notin> set (dirs tests_tree)
   \<and> read_file (create_time_helper_functions ''proj'' tests_tree) (utils_file ''proj'')
       = Some utils_content
   \<and> (\<exists>ws. writes (run_fixes ''proj'' tests_tree)
         = writes tests_tree
             @ (utils_file ''proj'', read_file tests_tree (utils_file ''proj''), utils_content)
             # ws)"
proof -
  have h1: "find_systemtime_usage ''proj'' tests_tree \<noteq> []"
    by (simp add: tests_tree_occurrences)
  have h2: "utils_dir ''proj'' \<in> set (dirs tests_tree)"
    and h3: "utils_file ''proj'' \<notin> set (dirs tests_tree)"
    by (simp_all add: tests_tree_def utils_dir_def utils_file_def)
  have a: "run_fixes ''proj'' quiet_tree = quiet_tree"
    using helper_injector_first [of "''proj''" quiet_tree] quiet_tree_occurrences by blast
  have b: "read_file (create_time_helper_functions ''proj'' tests_tree) (utils_file ''proj'')
       = Some utils_content
   \<and> (\<exists>ws. writes (run_fixes ''proj'' tests_tree)
         = writes tests_tree
             @ (utils_file ''proj'', read_file tests_tree (utils_file ''proj''), utils_content)
             # ws)"
    using helper_injector_first [of "''proj''" tests_tree] h1 h2 h3 by blast
  show ?thesis
    using quiet_tree_occurrences a h1 h2 h3 b by (intro conjI) blast+
qed


section \<open>C9: the entry point\<close>

text \<open>
  C9. \<^verbatim>\<open>main\<close> exits with code 1 and the usage message when the argument vector does not
  hold exactly the script and one argument, and with code 1 and the message that the root
  does not exist when it does not, in both cases with the file system untouched; otherwise
  it exits with code 0. On a tree without Rust files, or without occurrences, it exits with
  code 0, logs no fix and leaves the file system as it is.
\<close>

theorem main_exit_codes:
  "(length argv \<noteq> 2 \<longrightarrow> main argv st = (1, Some Usage, st))
   \<and> (length argv = 2 \<and> \<not> path_exists st (argv ! 1) \<longrightarrow>
        main argv st = (1, Some (Project_root_does_not_exist (argv ! 1)), st))
   \<and> (length argv = 2 \<and> path_exists st (argv ! 1) \<longrightarrow>
        fst (main argv st) = 0 \<and> fst (snd (main argv st)) = None)
   \<and> (length argv = 2 \<and> path_exists st (argv ! 1)
        \<and> (rglob_rs (argv ! 1) st = [] \<or> find_systemtime_usage (argv ! 1) st = []) \<longrightarrow>
        main argv st = (0, None, st\<lparr>fixes_applied := []\<rparr>))"
proof -
  have "run_fixes (argv ! 1) (st\<lparr>fixes_applied := []\<rparr>) = st\<lparr>fixes_applied := []\<rparr>"
    if "rglob_rs (argv ! 1) st = [] \<or> find_systemtime_usage (argv ! 1) st = []"
    using that no_files_no_occurrences [of "argv ! 1" st]
    by (intro run_fixes_no_occurrences) auto
  then show ?thesis
    by (auto simp: main_def Let_def)
qed

theorem main_exit_codes_witness:
  "length [''fix_systemtime.py''] \<noteq> 2
   \<and> main [''fix_systemtime.py''] empty_tree = (1, Some Usage, empty_tree)
   \<and> \<not> path_exists empty_tree ''nowhere''
   \<and> main [''fix_systemtime.py'', ''nowhere''] empty_tree
       = (1, Some (Project_root_does_not_exist ''nowhere''), empty_tree)
   \<and> path_exists empty_tree ''proj''
   \<and> rglob_rs ''proj'' empty_tree = []
   \<and> main [''fix_systemtime.py'', ''proj''] empty_tree = (0, None, empty_tree)"
proof -
  have h0: "length [''fix_systemtime.py''] \<noteq> 2" by simp
  have h1: "\<not> path_exists empty_tree ''nowhere''"
    and h2: "path_exists empty_tree ''proj''"
    and h3: "rglob_rs ''proj'' empty_tree = []"
    and h4: "empty_tree\<lparr>fixes_applied := []\<rparr> = empty_tree"
    by (simp_all add: path_exists_def empty_tree_def rglob_rs_def suffix_def)
  have a: "main [''fix_systemtime.py''] empty_tree = (1, Some Usage, empty_tree)"
    using main_exit_codes [of "[''fix_systemtime.py'']" empty_tree] h0 by blast
  have b: "main [''fix_systemtime.py'', ''nowhere''] empty_tree
       = (1, Some (Project_root_does_not_exist ''nowhere''), empty_tree)"
    using main_exit_codes [of "[''fix_systemtime.py'', ''nowhere'']" empty_tree] h1 by simp
  have c: "main [''fix_systemtime.py'', ''proj''] empty_tree = (0, None, empty_tree)"
    using main_exit_codes [of "[''fix_systemtime.py'', ''proj'']" empty_tree] h2 h3 h4 by simp
  show ?thesis
    using h0 a h1 b h2 h3 c by (intro conjI)
qed


section \<open>C10: a command-line file without an import\<close>

lemma cli_tree_content:
  "read_text cli_tree ''proj/cli/stamp.rs'' =
     Some (text_lines [''fn stamp() -> u64 {'',
        ''    SystemTime::now().duration_since(UNIX_EPOCH)?.as_secs()'', ''}''])"
  "contains ''cli'' ''proj/cli/stamp.rs''"
  "\<not> contains ''use '' (text_lines [''fn stamp() -> u64 {'',
        ''    SystemTime::now().duration_since(UNIX_EPOCH)?.as_secs()'', ''}''])"
  by (simp_all add: cli_tree_def read_file_def read_text_def text_lines_def)

lemma cli_tree_replaced:
  "replace_calls (text_lines [''fn stamp() -> u64 {'',
        ''    SystemTime::now().duration_since(UNIX_EPOCH)?.as_secs()'', ''}''])
     = text_lines [''fn stamp() -> u64 {'', ''    current_unix_timestamp()'', ''}'']"
  by (simp add: replace_calls_def chain_rx_def text_lines_def ms.simps(5))

text \<open>
  C10. For a file whose path contains \<^verbatim>\<open>cli\<close> and whose content has no \<^verbatim>\<open>use \<close>, the
  timestamp-conversion rewriter inserts no helper function: the content it computes is the
  three substitutions applied to the content it read. After the rewriter the file reads as
  that content; when it differs from the content read, it is the text on disk, and when it
  does not, nothing is done.
\<close>

theorem no_import_no_helper:
  assumes "contains ''cli'' file_path" and "\<not> contains ''use '' content"
  shows "add_helper content = content
    \<and> timestamp_content file_path content =
        re_sub (chain_rx ''.unwrap().as_millis()'') (\<lambda>m. ''current_unix_timestamp() * 1000'')
         (re_sub (chain_rx ''?.as_secs()'') (\<lambda>m. ''current_unix_timestamp()'')
           (re_sub (chain_rx ''?.as_millis() as u64'')
              (\<lambda>m. ''current_unix_timestamp() * 1000'') content))
    \<and> (read_text st file_path = Some content \<longrightarrow>
         read_text (fix_timestamp_conversions [(file_path, line_num, line)] st) file_path
           = Some (timestamp_content file_path content)
         \<and> (timestamp_content file_path content \<noteq> content \<longrightarrow>
               read_file (fix_timestamp_conversions [(file_path, line_num, line)] st) file_path
                 = Some (timestamp_content file_path content))
         \<and> (timestamp_content file_path content = content \<longrightarrow>
               fix_timestamp_conversions [(file_path, line_num, line)] st = st))"
proof -
  have "universal_newlines (timestamp_content file_path content)
      = timestamp_content file_path content"
    if "read_text st file_path = Some content"
    using timestamp_content_no_cr [OF read_text_no_cr [OF that]] by (rule universal_newlines_id)
  then have "read_text st file_path = Some content \<longrightarrow>
         read_text (fix_timestamp_conversions [(file_path, line_num, line)] st) file_path
           = Some (timestamp_content file_path content)
         \<and> (timestamp_content file_path content \<noteq> content \<longrightarrow>
               read_file (fix_timestamp_conversions [(file_path, line_num, line)] st) file_path
                 = Some (timestamp_content file_path content))
         \<and> (timestamp_content file_path content = content \<longrightarrow>
               fix_timestamp_conversions [(file_path, line_num, line)] st = st)"
    by (auto simp: read_write_file read_text_write_file Let_def)
  moreover have "add_helper content = content"
    using assms(2) by (rule add_helper_no_import)
  ultimately show ?thesis
    using assms(1) by (simp add: timestamp_content_def replace_calls_def)
qed

theorem no_import_no_helper_witness:
  "contains ''cli'' ''proj/cli/stamp.rs''
   \<and> \<not> contains ''use '' (text_lines [''fn stamp() -> u64 {'',
        ''    SystemTime::now().duration_since(UNIX_EPOCH)?.as_secs()'', ''}''])
   \<and> read_text cli_tree ''proj/cli/stamp.rs'' =
     Some (text_lines [''fn stamp() -> u64 {'',
        ''    SystemTime::now().duration_since(UNIX_EPOCH)?.as_secs()'', ''}''])
   \<and> timestamp_content ''proj/cli/stamp.rs'' (text_lines [''fn stamp() -> u64 {'',
        ''    SystemTime::now().duration_since(UNIX_EPOCH)?.as_secs()'', ''}''])
       \<noteq> text_lines [''fn stamp() -> u64 {'',
        ''    SystemTime::now().duration_since(UNIX_EPOCH)?.as_secs()'', ''}'']
   \<and> read_file
        (fix_timestamp_conversions
           [(''proj/cli/stamp.rs'', 2, ''SystemTime::now().duration_since(UNIX_EPOCH)?.as_secs()'')]
           cli_tree) ''proj/cli/stamp.rs''
       = Some (text_lines [''fn stamp() -> u64 {'', ''    current_unix_timestamp()'', ''}''])
   \<and> \<not> contains ''fn current_unix_timestamp''
         (text_lines [''fn stamp() -> u64 {'', ''    current_unix_timestamp()'', ''}''])"
proof -
  have t: "timestamp_content ''proj/cli/stamp.rs'' (text_lines [''fn stamp() -> u64 {'',
        ''    SystemTime::now().duration_since(UNIX_EPOCH)?.as_secs()'', ''}''])
      = text_lines [''fn stamp() -> u64 {'', ''    current_unix_timestamp()'', ''}'']"
    using cli_tree_content(2,3) cli_tree_replaced
    by (simp add: timestamp_content_def add_helper_no_import)
  have n: "\<not> contains ''fn current_unix_timestamp''
         (text_lines [''fn stamp() -> u64 {'', ''    current_unix_timestamp()'', ''}''])"
    by (simp add: text_lines_def)
  have d: "text_lines [''fn stamp() -> u64 {'', ''    current_unix_timestamp()'', ''}'']
       \<noteq> text_lines [''fn stamp() -> u64 {'',
        ''    SystemTime::now().duration_since(UNIX_EPOCH)?.as_secs()'', ''}'']"
    by (simp add: text_lines_def)
  have r: "read_file
        (fix_timestamp_conversions
           [(''proj/cli/stamp.rs'', 2, ''SystemTime::now().duration_since(UNIX_EPOCH)?.as_secs()'')]
           cli_tree) ''proj/cli/stamp.rs''
       = Some (text_lines [''fn stamp() -> u64 {'', ''    current_unix_timestamp()'', ''}''])"
    using no_import_no_helper [OF cli_tree_content(2,3), of cli_tree 2
        "''SystemTime::now().duration_since(UNIX_EPOCH)?.as_secs()''"]
      cli_tree_content(1) d unfolding t by blast
  show ?thesis
    using cli_tree_content(2) cli_tree_content(3) cli_tree_content(1) d [unfolded t [symmetric]] r n
    by (intro conjI)
qed

end
